theory Spec2Isabelle
  imports Main "HOL-Library.Sublist" "HOL-Library.AList"
begin

section \<open>Text and characters\<close>

text \<open>
  The program is \<^verbatim>\<open>src/impala_to_trino.py\<close>. SQL text is a \<^typ>\<open>string\<close>: a list of
  8-bit characters, read as the code points 0 to 255 of a Python \<^verbatim>\<open>str\<close>. The character
  classes below are the ones Python uses for \<^verbatim>\<open>str\<close> on that range.
\<close>

definition bslash :: char where
  "bslash = CHR 0x5C"

text \<open>\<^verbatim>\<open>str.isspace\<close>, which is also the class \<^verbatim>\<open>\s\<close> of \<^verbatim>\<open>re\<close> on \<^verbatim>\<open>str\<close> patterns.\<close>

definition space_chars :: "char list" where
  "space_chars = [CHR 0x20, CHR 0x09, CHR 0x0A, CHR 0x0B, CHR 0x0C, CHR 0x0D,
                  CHR 0x1C, CHR 0x1D, CHR 0x1E, CHR 0x1F, CHR 0x85, CHR 0xA0]"

definition is_space :: "char \<Rightarrow> bool" where
  "is_space c = (c \<in> set space_chars)"

text \<open>The class \<^verbatim>\<open>\d\<close>: the decimal digits.\<close>

definition is_digit :: "char \<Rightarrow> bool" where
  "is_digit c = (c \<in> set ''0123456789'')"

text \<open>
  \<^verbatim>\<open>str.lower\<close> on one character, by code point: the letters A to Z and the Latin-1
  capitals (0xC0 to 0xDE without the multiplication sign 0xD7) move up by 32.
\<close>

definition lower_char :: "char \<Rightarrow> char" where
  "lower_char c =
     (let n = of_char c :: nat in
      if (65 \<le> n \<and> n \<le> 90) \<or> (192 \<le> n \<and> n \<le> 222 \<and> n \<noteq> 215)
      then char_of (n + 32) else c)"

definition lower :: "string \<Rightarrow> string" where
  "lower s = map lower_char s"

text \<open>
  The class \<^verbatim>\<open>\w\<close>: \<^verbatim>\<open>str.isalnum\<close> or the underscore. Beyond ASCII these are the
  Latin-1 letters (0xAA, 0xB5, 0xBA, 0xC0 to 0xFF without 0xD7 and 0xF7), the
  superscript digits (0xB2, 0xB3, 0xB9) and the fractions (0xBC to 0xBE).
\<close>

definition is_word :: "char \<Rightarrow> bool" where
  "is_word c =
     (let n = of_char c :: nat in
      (48 \<le> n \<and> n \<le> 57) \<or> (65 \<le> n \<and> n \<le> 90) \<or> n = 95 \<or> (97 \<le> n \<and> n \<le> 122) \<or>
      n = 170 \<or> n = 178 \<or> n = 179 \<or> n = 181 \<or> n = 185 \<or> n = 186 \<or>
      (188 \<le> n \<and> n \<le> 190) \<or> (192 \<le> n \<and> n \<le> 214) \<or> (216 \<le> n \<and> n \<le> 246) \<or> 248 \<le> n)"

section \<open>The regular expressions of the program\<close>

text \<open>
  The patterns of the source are sequences of: one character, one class (\<^verbatim>\<open>\s\<close>,
  \<^verbatim>\<open>\d\<close>, \<^verbatim>\<open>[^c]\<close>), a class under \<^verbatim>\<open>*\<close> or \<^verbatim>\<open>+\<close>, the word boundary
  \<^verbatim>\<open>\b\<close>, and capturing parentheses. A pattern is the list of its items, the
  parentheses of a group being two items of their own.
\<close>

datatype atom = Chr char | Space | Digit | Except char

datatype item = One atom | Star atom | Plus atom | Bnd | GOpen | GClose

type_synonym pattern = "item list"

text \<open>Whether an atom accepts a character; the flag is \<^verbatim>\<open>re.IGNORECASE\<close>.\<close>

fun accepts :: "bool \<Rightarrow> atom \<Rightarrow> char \<Rightarrow> bool" where
  "accepts ic (Chr c) x = (if ic then lower_char x = lower_char c else x = c)"
| "accepts ic Space x = is_space x"
| "accepts ic Digit x = is_digit x"
| "accepts ic (Except c) x = (\<not> (if ic then lower_char x = lower_char c else x = c))"

text \<open>
  \<^verbatim>\<open>\b\<close> holds between two characters of which exactly one is a word character; the
  ends of the text count as a non-word character. \<open>prev\<close> is the character before the
  position, \<open>s\<close> the text from the position on.
\<close>

definition at_boundary :: "char option \<Rightarrow> string \<Rightarrow> bool" where
  "at_boundary prev s =
     ((case prev of None \<Rightarrow> False | Some c \<Rightarrow> is_word c) \<noteq>
      (case s of [] \<Rightarrow> False | c # _ \<Rightarrow> is_word c))"

text \<open>
  The backtracking matcher: \<open>match_here ic p prev s opens caps\<close> matches all of \<open>p\<close> at
  the head of \<open>s\<close> and returns the captured groups, the last character consumed and the
  rest of the text. The quantifiers are greedy: one more character is tried first, and
  the rest of the pattern only when that fails. \<open>opens\<close> holds the text at each open
  parenthesis, \<open>caps\<close> the groups closed so far.
\<close>

fun match_here :: "bool \<Rightarrow> pattern \<Rightarrow> char option \<Rightarrow> string \<Rightarrow> string list \<Rightarrow> string list
    \<Rightarrow> (string list \<times> char option \<times> string) option" where
  "match_here ic [] prev s opens caps = Some (caps, prev, s)"
| "match_here ic (One a # p) prev [] opens caps = None"
| "match_here ic (One a # p) prev (c # s) opens caps =
     (if accepts ic a c then match_here ic p (Some c) s opens caps else None)"
| "match_here ic (Star a # p) prev [] opens caps = match_here ic p prev [] opens caps"
| "match_here ic (Star a # p) prev (c # s) opens caps =
     (if accepts ic a c
      then (case match_here ic (Star a # p) (Some c) s opens caps of
              Some r \<Rightarrow> Some r
            | None \<Rightarrow> match_here ic p prev (c # s) opens caps)
      else match_here ic p prev (c # s) opens caps)"
| "match_here ic (Plus a # p) prev [] opens caps = None"
| "match_here ic (Plus a # p) prev (c # s) opens caps =
     (if accepts ic a c then match_here ic (Star a # p) (Some c) s opens caps else None)"
| "match_here ic (Bnd # p) prev s opens caps =
     (if at_boundary prev s then match_here ic p prev s opens caps else None)"
| "match_here ic (GOpen # p) prev s opens caps = match_here ic p prev s (s # opens) caps"
| "match_here ic (GClose # p) prev s [] caps = None"
| "match_here ic (GClose # p) prev s (s0 # opens) caps =
     match_here ic p prev s opens (caps @ [take (length s0 - length s) s0])"

text \<open>
  The scan shared by \<^verbatim>\<open>re.findall\<close> and \<^verbatim>\<open>re.sub\<close>: the text is cut, from left to
  right, into the matches found (leftmost first, never overlapping) and the characters
  between them. After a match the search resumes where the match ended; a match of no
  character is followed by the next character of the text.
\<close>

datatype piece = Text char | Match "string list"

function scan :: "bool \<Rightarrow> pattern \<Rightarrow> char option \<Rightarrow> string \<Rightarrow> piece list" where
  "scan ic p prev [] =
     (case match_here ic p prev [] [] [] of
        Some (g, _, _) \<Rightarrow> [Match g]
      | None \<Rightarrow> [])"
| "scan ic p prev (c # s) =
     (case match_here ic p prev (c # s) [] [] of
        Some (g, prev', r) \<Rightarrow>
          (if length r < length (c # s) then Match g # scan ic p prev' r
           else Match g # Text c # scan ic p (Some c) s)
      | None \<Rightarrow> Text c # scan ic p (Some c) s)"
  by pat_completeness auto
termination
  by (relation "measure (\<lambda>(ic, p, prev, s). length s)") auto

text \<open>\<^verbatim>\<open>re.findall(pattern, text, flags)\<close>: the groups of every match, in order.\<close>

fun matches_of :: "piece list \<Rightarrow> string list list" where
  "matches_of [] = []"
| "matches_of (Text c # ps) = matches_of ps"
| "matches_of (Match g # ps) = g # matches_of ps"

definition findall :: "pattern \<Rightarrow> string \<Rightarrow> bool \<Rightarrow> string list list" where
  "findall p s ic = matches_of (scan ic p None s)"

section \<open>Exceptions and replacements\<close>

datatype error = IndexError string | Exception string

fun str_of :: "error \<Rightarrow> string" where
  "str_of (IndexError msg) = msg"
| "str_of (Exception msg) = msg"

text \<open>\<^verbatim>\<open>xs[i]\<close> for \<open>i \<ge> 0\<close>: Python raises IndexError out of range.\<close>

definition list_index :: "'a list \<Rightarrow> nat \<Rightarrow> error + 'a" where
  "list_index xs i =
     (if i < length xs then Inr (xs ! i) else Inl (IndexError ''list index out of range''))"

text \<open>
  \<^verbatim>\<open>match.group(i)\<close> for \<open>i \<ge> 1\<close>, the match being the list of its groups. Every
  replacement of the program asks only for groups its pattern has.
\<close>

definition group :: "string list \<Rightarrow> nat \<Rightarrow> string" where
  "group m i = m ! (i - 1)"

text \<open>
  A replacement is a template string or a function of the match. In a template,
  \<^verbatim>\<open>\\\<close> stands for one backslash and \<^verbatim>\<open>\1\<close> to \<^verbatim>\<open>\9\<close> for a group; the templates of
  the program use no other escape.
\<close>

datatype replacement = Template string | Callable "string list \<Rightarrow> error + string"

fun expand_template :: "string \<Rightarrow> string list \<Rightarrow> string" where
  "expand_template [] m = []"
| "expand_template [c] m = [c]"
| "expand_template (c # d # t) m =
     (if c = bslash then
        (if d = bslash then bslash # expand_template t m
         else if is_digit d then group m (of_char d - 48) @ expand_template t m
         else c # expand_template (d # t) m)
      else c # expand_template (d # t) m)"

fun replace_with :: "replacement \<Rightarrow> string list \<Rightarrow> error + string" where
  "replace_with (Template t) m = Inr (expand_template t m)"
| "replace_with (Callable f) m = f m"

text \<open>
  \<^verbatim>\<open>re.sub(pattern, repl, text, flags)\<close>: every match is replaced, from left to right; an
  exception raised by the replacement function ends the call.
\<close>

fun substitute :: "replacement \<Rightarrow> piece list \<Rightarrow> error + string" where
  "substitute repl [] = Inr []"
| "substitute repl (Text c # ps) =
     (case substitute repl ps of Inl e \<Rightarrow> Inl e | Inr t \<Rightarrow> Inr (c # t))"
| "substitute repl (Match g # ps) =
     (case replace_with repl g of
        Inl e \<Rightarrow> Inl e
      | Inr r \<Rightarrow> (case substitute repl ps of Inl e \<Rightarrow> Inl e | Inr t \<Rightarrow> Inr (r @ t)))"

definition re_sub :: "pattern \<Rightarrow> replacement \<Rightarrow> string \<Rightarrow> bool \<Rightarrow> error + string" where
  "re_sub p repl s ic = substitute repl (scan ic p None s)"

section \<open>String methods\<close>

text \<open>\<^verbatim>\<open>s.split()\<close>: the maximal runs of characters that are not white space.\<close>

fun split_from :: "string \<Rightarrow> string \<Rightarrow> string list" where
  "split_from cur [] = (if cur = [] then [] else [cur])"
| "split_from cur (c # s) =
     (if is_space c then (if cur = [] then split_from [] s else cur # split_from [] s)
      else split_from (cur @ [c]) s)"

definition split :: "string \<Rightarrow> string list" where
  "split s = split_from [] s"

definition strip :: "string \<Rightarrow> string" where
  "strip s = rev (dropWhile is_space (rev (dropWhile is_space s)))"

definition endswith :: "string \<Rightarrow> char \<Rightarrow> bool" where
  "endswith s c = (s \<noteq> [] \<and> last s = c)"

text \<open>\<^verbatim>\<open>s.replace(old, new)\<close> for a one-character \<open>old\<close>.\<close>

definition str_replace :: "string \<Rightarrow> char \<Rightarrow> string \<Rightarrow> string" where
  "str_replace s old new = concat (map (\<lambda>c. if c = old then new else [c]) s)"

text \<open>\<^verbatim>\<open>sub in s\<close>.\<close>

fun contains :: "string \<Rightarrow> string \<Rightarrow> bool" where
  "contains [] sub = (sub = [])"
| "contains (c # s) sub = (prefix sub (c # s) \<or> contains s sub)"

section \<open>The replacement functions\<close>

text \<open>\<^verbatim>\<open>_replace_date_add\<close>: \<^verbatim>\<open>value[1]\<close> and \<^verbatim>\<open>value[2]\<close> raise when the list is short.\<close>

definition replace_date_add :: "string list \<Rightarrow> error + string" where
  "replace_date_add m =
     (let date_part = group m 1; val = split (group m 2) in
      if length val = 1
      then Inr (''date_add('day', '' @ group m 2 @ '', CAST('' @ date_part @ '' AS TIMESTAMP))'')
      else (case list_index val 1 of
              Inl e \<Rightarrow> Inl e
            | Inr value_part \<Rightarrow>
               (case list_index val 2 of
                  Inl e \<Rightarrow> Inl e
                | Inr unit0 \<Rightarrow>
                   (let unit = (if endswith unit0 CHR ''s'' then butlast unit0 else unit0) in
                    Inr (''date_add('' @ [CHR 0x27] @ unit @ [CHR 0x27] @ '', '' @ value_part @
                         '', '' @ date_part @ '')'')))))"

text \<open>\<^verbatim>\<open>_replace_date_part\<close>, with its dictionary of quoted unit names.\<close>

definition part_mapping :: "(string \<times> string) list" where
  "part_mapping =
     [([CHR 0x27] @ ''year'' @ [CHR 0x27], ''year''),
      ([CHR 0x27] @ ''month'' @ [CHR 0x27], ''month''),
      ([CHR 0x27] @ ''day'' @ [CHR 0x27], ''day''),
      ([CHR 0x27] @ ''hour'' @ [CHR 0x27], ''hour''),
      ([CHR 0x27] @ ''minute'' @ [CHR 0x27], ''minute''),
      ([CHR 0x27] @ ''second'' @ [CHR 0x27], ''second'')]"

definition replace_date_part :: "string list \<Rightarrow> error + string" where
  "replace_date_part m =
     (let part = lower (strip (group m 1));
          date = strip (group m 2);
          part' = str_replace (case map_of part_mapping part of Some v \<Rightarrow> v | None \<Rightarrow> part)
                    (CHR 0x27) []
      in Inr (''extract('' @ part' @ '' FROM '' @ date @ '')''))"

text \<open>\<^verbatim>\<open>_replace_date_sub\<close>.\<close>

definition replace_date_sub :: "string list \<Rightarrow> error + string" where
  "replace_date_sub m =
     (let date_part = group m 1; val = split (group m 2) in
      if length val = 1
      then Inr (''date_add('day', -'' @ group m 2 @ '', '' @ date_part @ '')'')
      else (case list_index val 1 of
              Inl e \<Rightarrow> Inl e
            | Inr value_part \<Rightarrow>
               (case list_index val 2 of
                  Inl e \<Rightarrow> Inl e
                | Inr unit0 \<Rightarrow>
                   (let unit = (if endswith unit0 CHR ''s'' then butlast unit0 else unit0) in
                    Inr (''date_add('' @ [CHR 0x27] @ unit @ [CHR 0x27] @ '', -'' @ value_part @
                         '', '' @ date_part @ '')'')))))"

section \<open>The rule table\<close>

record mapping =
  name :: string
  pattern :: pattern
  replacement :: replacement

text \<open>The characters of a pattern that stand for themselves.\<close>

definition lit :: "string \<Rightarrow> pattern" where
  "lit s = map (\<lambda>c. One (Chr c)) s"

text \<open>\<^verbatim>\<open>NAME\s*\(([^,]+),\s*([^)]+)\)\<close>\<close>

definition two_args :: "string \<Rightarrow> pattern" where
  "two_args nm = lit nm @ [Star Space, One (Chr CHR ''(''), GOpen, Plus (Except CHR '',''), GClose,
     One (Chr CHR '',''), Star Space, GOpen, Plus (Except CHR '')''), GClose, One (Chr CHR '')'')]"

text \<open>\<^verbatim>\<open>NAME\s*\(([^)]+)\)\<close>\<close>

definition one_arg :: "string \<Rightarrow> pattern" where
  "one_arg nm = lit nm @ [Star Space, One (Chr CHR ''(''), GOpen, Plus (Except CHR '')''), GClose,
     One (Chr CHR '')'')]"

text \<open>\<^verbatim>\<open>NAME\s*\(([^)]*)\)\<close>\<close>

definition opt_arg :: "string \<Rightarrow> pattern" where
  "opt_arg nm = lit nm @ [Star Space, One (Chr CHR ''(''), GOpen, Star (Except CHR '')''), GClose,
     One (Chr CHR '')'')]"

text \<open>\<^verbatim>\<open>NAME\s*\(\)\<close>\<close>

definition no_arg :: "string \<Rightarrow> pattern" where
  "no_arg nm = lit nm @ [Star Space, One (Chr CHR ''(''), One (Chr CHR '')'')]"

definition function_mappings :: "mapping list" where
  "function_mappings =
    [\<lparr>name = ''add_months'', pattern = two_args ''add_months'',
       replacement = Callable (\<lambda>m. Inr (''date_add('month', '' @ group m 2 @ '', CAST('' @ group m 1 @ '' AS TIMESTAMP))''))\<rparr>,
     \<lparr>name = ''adddate'', pattern = two_args ''adddate'',
       replacement = Callable (\<lambda>m. Inr (''date_add('day', '' @ group m 2 @ '', '' @ group m 1 @ '')''))\<rparr>,
     \<lparr>name = ''date_add'', pattern = two_args ''date_add'',
       replacement = Callable replace_date_add\<rparr>,
     \<lparr>name = ''date_part'', pattern = two_args ''DATE_PART'',
       replacement = Callable replace_date_part\<rparr>,
     \<lparr>name = ''date_sub'', pattern = two_args ''DATE_SUB'',
       replacement = Callable replace_date_sub\<rparr>,
     \<lparr>name = ''datediff'', pattern = two_args ''datediff'',
       replacement = Callable (\<lambda>m. Inr (''date_diff('day', '' @ group m 2 @ '', '' @ group m 1 @ '')''))\<rparr>,
     \<lparr>name = ''dayofmonth'', pattern = one_arg ''dayofmonth'',
       replacement = Callable (\<lambda>m. Inr (''DAY('' @ group m 1 @ '')''))\<rparr>,
     \<lparr>name = ''dayofweek'', pattern = one_arg ''dayofweek'',
       replacement = Callable (\<lambda>m. Inr (''IF(day_of_week('' @ group m 1 @ '')+1 > 7, 1, day_of_week('' @ group m 1 @ '')+1)''))\<rparr>,
     \<lparr>name = ''from_utc_timestamp'', pattern = two_args ''from_utc_timestamp'',
       replacement = Callable (\<lambda>m. Inr (''at_timezone('' @ group m 1 @ '', '' @ group m 2 @ '')''))\<rparr>,
     \<lparr>name = ''to_utc_timestamp'', pattern = two_args ''to_utc_timestamp'',
       replacement = Callable (\<lambda>m. Inr (''at_timezone('' @ group m 1 @ '', 'UTC')''))\<rparr>,
     \<lparr>name = ''group_concat'', pattern = one_arg ''group_concat'',
       replacement = Callable (\<lambda>m. Inr (''array_join(array_agg('' @ group m 1 @ ''), ',')''))\<rparr>,
     \<lparr>name = ''ifnull'', pattern = two_args ''ifnull'',
       replacement = Callable (\<lambda>m. Inr (''COALESCE('' @ group m 1 @ '', '' @ group m 2 @ '')''))\<rparr>,
     \<lparr>name = ''instr'', pattern = two_args ''instr'',
       replacement = Callable (\<lambda>m. Inr (''strpos('' @ group m 1 @ '', '' @ group m 2 @ '')''))\<rparr>,
     \<lparr>name = ''int_months_between'', pattern = two_args ''int_months_between'',
       replacement = Callable (\<lambda>m. Inr (''date_diff('month', '' @ group m 2 @ '', '' @ group m 1 @ '')''))\<rparr>,
     \<lparr>name = ''left'', pattern = two_args ''left'',
       replacement = Callable (\<lambda>m. Inr (''substring('' @ group m 1 @ '', 1, '' @ group m 2 @ '')''))\<rparr>,
     \<lparr>name = ''strleft'', pattern = two_args ''strleft'',
       replacement = Callable (\<lambda>m. Inr (''substring('' @ group m 1 @ '', 1, '' @ group m 2 @ '')''))\<rparr>,
     \<lparr>name = ''strright'', pattern = two_args ''strright'',
       replacement = Callable (\<lambda>m. Inr (''substring('' @ group m 1 @ '', -'' @ group m 2 @ '')''))\<rparr>,
     \<lparr>name = ''right'', pattern = two_args ''right'',
       replacement = Callable (\<lambda>m. Inr (''substring('' @ group m 1 @ '', -'' @ group m 2 @ '')''))\<rparr>,
     \<lparr>name = ''to_date'', pattern = one_arg ''to_date'',
       replacement = Callable (\<lambda>m. Inr (''date('' @ group m 1 @ '')''))\<rparr>,
     \<lparr>name = ''trunc'', pattern = two_args ''trunc'',
       replacement = Callable (\<lambda>m. Inr (''date_trunc('' @ group m 2 @ '', '' @ group m 1 @ '')''))\<rparr>,
     \<lparr>name = ''unix_timestamp'', pattern = opt_arg ''unix_timestamp'',
       replacement = Callable (\<lambda>m. Inr (''to_unixtime('' @ (if group m 1 \<noteq> [] then group m 1 else ''now()'') @ '')''))\<rparr>,
     \<lparr>name = ''weekofyear'', pattern = one_arg ''weekofyear'',
       replacement = Callable (\<lambda>m. Inr (''week('' @ group m 1 @ '')''))\<rparr>,
     \<lparr>name = ''current_timestamp'', pattern = no_arg ''current_timestamp'',
       replacement = Template ''CAST(NOW() AS TIMESTAMP)''\<rparr>]"

section \<open>The rule engine\<close>

record conversion_stats =
  total_conversions :: int
  functions_converted :: "(string \<times> int) list"
  errors :: int

text \<open>
  The body of the loop over the table, lines 156 to 188, on the three variables it
  changes: the text, the warnings and the statistics. \<^verbatim>\<open>d[k] = v\<close> is
  \<^const>\<open>AList.update\<close>; the \<^verbatim>\<open>debug\<close> printing is left out.
\<close>

definition apply_mapping ::
    "mapping \<Rightarrow> string \<times> string list \<times> conversion_stats \<Rightarrow> string \<times> string list \<times> conversion_stats" where
  "apply_mapping mp st =
     (case st of (sql_content, warnings, stats) \<Rightarrow>
        (let matches_before = int (length (findall (pattern mp) sql_content True)) in
         case re_sub (pattern mp) (replacement mp) sql_content True of
           Inl e \<Rightarrow>
             (sql_content,
              warnings @ [''Warning: Failed to apply '' @ name mp @ '' conversion: '' @ str_of e],
              stats\<lparr>errors := errors stats + 1\<rparr>)
         | Inr sql_content' \<Rightarrow>
             (let matches_after = int (length (findall (pattern mp) sql_content' True));
                  conversions_made = matches_before - matches_after in
              if conversions_made > 0
              then (sql_content', warnings,
                    stats\<lparr>functions_converted :=
                            AList.update (name mp) conversions_made (functions_converted stats),
                          total_conversions := total_conversions stats + conversions_made\<rparr>)
              else (sql_content', warnings, stats))))"

definition apply_mappings ::
    "mapping list \<Rightarrow> string \<times> string list \<times> conversion_stats \<Rightarrow> string \<times> string list \<times> conversion_stats" where
  "apply_mappings mps st = foldl (\<lambda>st mp. apply_mapping mp st) st mps"

section \<open>The post-processing pass\<close>

definition bind :: "error + 'a \<Rightarrow> ('a \<Rightarrow> error + 'b) \<Rightarrow> error + 'b" where
  "bind x f = (case x of Inl e \<Rightarrow> Inl e | Inr v \<Rightarrow> f v)"

text \<open>The loops over \<^verbatim>\<open>type_mappings\<close> and \<^verbatim>\<open>function_replacements\<close>.\<close>

fun sub_each :: "(pattern \<times> string) list \<Rightarrow> string \<Rightarrow> error + string" where
  "sub_each [] s = Inr s"
| "sub_each ((old, new) # rest) s = bind (re_sub old (Template new) s True) (sub_each rest)"

text \<open>\<^verbatim>\<open>\bstring\b\<close>, \<^verbatim>\<open>\bfloat\b\<close>, \<^verbatim>\<open>\bint\b\<close>, \<^verbatim>\<open>\bbigint\b\<close>\<close>

definition type_mappings :: "(pattern \<times> string) list" where
  "type_mappings =
     [(Bnd # lit ''string'' @ [Bnd], ''VARCHAR''),
      (Bnd # lit ''float'' @ [Bnd], ''DOUBLE''),
      (Bnd # lit ''int'' @ [Bnd], ''INTEGER''),
      (Bnd # lit ''bigint'' @ [Bnd], ''BIGINT'')]"

text \<open>\<^verbatim>\<open>\binterval (\d+) \<close> and its template \<^verbatim>\<open>INTERVAL '\1' \<close>\<close>

definition interval_pattern :: pattern where
  "interval_pattern = Bnd # lit ''interval '' @ [GOpen, Plus Digit, GClose, One (Chr CHR '' '')]"

definition interval_template :: string where
  "interval_template = ''INTERVAL ''  @ [CHR 0x27, bslash, CHR ''1'', CHR 0x27, CHR '' '']"

text \<open>\<^verbatim>\<open>\\+\<close> and its template \<^verbatim>\<open>\\\\\<close>, which stands for two backslashes.\<close>

definition backslash_pattern :: pattern where
  "backslash_pattern = [Plus (Chr bslash)]"

definition backslash_template :: string where
  "backslash_template = [bslash, bslash, bslash, bslash]"

definition function_replacements :: "(pattern \<times> string) list" where
  "function_replacements =
     [(lit ''default.gb_format_datetime'', ''gb_format_datetime''),
      (lit ''default.gb_json_parser'', ''gb_json_parser''),
      (lit ''default.gb_to_est'', ''gb_to_est''),
      (lit ''default.gb_completed_months'', ''gb_completed_months''),
      (Bnd # lit ''tempdb'' @ [Bnd], ''caastle_insights''),
      (lit ([CHR 0x27] @ ''EDT'' @ [CHR 0x27]), [CHR 0x27] @ ''EST5EDT'' @ [CHR 0x27])]"

definition apply_additional_transformations :: "string \<Rightarrow> error + string" where
  "apply_additional_transformations sql_content =
     bind (sub_each type_mappings sql_content) (\<lambda>sql_content.
     (let sql_content = str_replace sql_content (CHR 0x60) [CHR 0x22] in
      bind (re_sub interval_pattern (Template interval_template) sql_content True) (\<lambda>sql_content.
      bind (re_sub backslash_pattern (Template backslash_template) sql_content False) (\<lambda>sql_content.
      sub_each function_replacements sql_content))))"

section \<open>The validator\<close>

definition validate_converted_sql :: "string \<Rightarrow> string list" where
  "validate_converted_sql sql_content =
     (if contains (lower sql_content) ''add_months(''
      then [''Potential unconverted add_months function detected''] else []) @
     (if contains (lower sql_content) ''datediff(''
      then [''Potential unconverted datediff function detected''] else []) @
     (if contains (lower sql_content) ''current_timestamp()''
      then [''Potential unconverted current_timestamp function detected''] else []) @
     (if count_list sql_content CHR ''('' \<noteq> count_list sql_content CHR '')''
      then [''Unbalanced parentheses detected''] else []) @
     (if contains (lower sql_content) ''group_concat(''
      then [''group_concat function detected - verify conversion to array_join''] else [])"

section \<open>The entry point\<close>

text \<open>
  \<^verbatim>\<open>replace_func\<close>, lines 24 to 209. A call that returns gives \<open>Inr\<close> of the tuple
  returned. A call that raises gives \<open>Inl\<close> of the exception, together with the
  warnings and the statistics as the handler of lines 203 to 209 left them before it
  raised again. The two functions called after the loop are parameters of
  \<open>replace_func_with\<close>, so that the handler is there whatever they raise.
\<close>

definition initial_stats :: conversion_stats where
  "initial_stats = \<lparr>total_conversions = 0, functions_converted = [], errors = 0\<rparr>"

definition fatal ::
    "error \<Rightarrow> string list \<Rightarrow> conversion_stats \<Rightarrow> error \<times> string list \<times> conversion_stats" where
  "fatal e warnings stats =
     (e, warnings @ [''Failed to convert SQL: '' @ str_of e], stats\<lparr>errors := errors stats + 1\<rparr>)"

definition replace_func_with ::
    "(string \<Rightarrow> error + string) \<Rightarrow> (string \<Rightarrow> error + string list) \<Rightarrow> string \<Rightarrow>
     (error \<times> string list \<times> conversion_stats) + (string \<times> string list \<times> conversion_stats)" where
  "replace_func_with transform validate sql_content =
     (case apply_mappings function_mappings (sql_content, [], initial_stats) of
        (sql_content, warnings, stats) \<Rightarrow>
          (case transform sql_content of
             Inl e \<Rightarrow> Inl (fatal e warnings stats)
           | Inr sql_content \<Rightarrow>
               (case validate sql_content of
                  Inl e \<Rightarrow> Inl (fatal e warnings stats)
                | Inr validation_warnings \<Rightarrow>
                    Inr (sql_content, warnings @ validation_warnings, stats))))"

definition replace_func ::
    "string \<Rightarrow> (error \<times> string list \<times> conversion_stats) + (string \<times> string list \<times> conversion_stats)" where
  "replace_func sql_content =
     replace_func_with apply_additional_transformations
       (\<lambda>s. Inr (validate_converted_sql s)) sql_content"

section \<open>Notions used in the properties\<close>

text \<open>
  The lengths of the maximal runs of backslashes of a text, from left to right;
  \<open>runs_from n s\<close> counts \<open>n\<close> backslashes seen just before \<open>s\<close>.
\<close>

fun runs_from :: "nat \<Rightarrow> string \<Rightarrow> nat list" where
  "runs_from n [] = (if n = 0 then [] else [n])"
| "runs_from n (c # s) =
     (if c = bslash then runs_from (Suc n) s
      else if n = 0 then runs_from 0 s else n # runs_from 0 s)"

definition backslash_runs :: "string \<Rightarrow> nat list" where
  "backslash_runs s = runs_from 0 s"

text \<open>The characters an item of a pattern can consume, and the items that consume at least one.\<close>

fun eats :: "bool \<Rightarrow> item \<Rightarrow> char \<Rightarrow> bool" where
  "eats ic (One a) x = accepts ic a x"
| "eats ic (Star a) x = accepts ic a x"
| "eats ic (Plus a) x = accepts ic a x"
| "eats ic Bnd x = False"
| "eats ic GOpen x = False"
| "eats ic GClose x = False"

fun needs_char :: "item \<Rightarrow> bool" where
  "needs_char (One a) = True"
| "needs_char (Plus a) = True"
| "needs_char (Star a) = False"
| "needs_char Bnd = False"
| "needs_char GOpen = False"
| "needs_char GClose = False"

text \<open>The number of groups a pattern closes.\<close>

fun closes :: "pattern \<Rightarrow> nat" where
  "closes [] = 0"
| "closes (GClose # p) = Suc (closes p)"
| "closes (_ # p) = closes p"

text \<open>
  The closed form of a match of \<^verbatim>\<open>NAME\s*\(([^,]+),\s*([^)]+)\)\<close> at the head of a
  text, proved below to be what the matcher computes for \<open>two_args\<close>: the name, white
  space, the parenthesis, a first argument up to the first comma, a second one up to
  the next closing parenthesis. \<^verbatim>\<open>\s*\<close> takes the white space after the comma, but
  gives one character back when nothing else is left for the second group.
\<close>

fun starts_with :: "bool \<Rightarrow> string \<Rightarrow> string \<Rightarrow> bool" where
  "starts_with ic [] s = True"
| "starts_with ic (n # nm) [] = False"
| "starts_with ic (n # nm) (x # s) = (accepts ic (Chr n) x \<and> starts_with ic nm s)"

definition second_arg :: "string \<Rightarrow> string" where
  "second_arg body = (if dropWhile is_space body = [] then [last body] else dropWhile is_space body)"

definition two_args_match :: "string \<Rightarrow> string \<Rightarrow> (string list \<times> char option \<times> string) option" where
  "two_args_match nm s =
     (if starts_with True nm s then
        (case dropWhile is_space (drop (length nm) s) of
           [] \<Rightarrow> None
         | y # r0 \<Rightarrow>
             if y = CHR ''('' then
               (case dropWhile (\<lambda>y. y \<noteq> CHR '','') r0 of
                  [] \<Rightarrow> None
                | y1 # r1 \<Rightarrow>
                    if takeWhile (\<lambda>y. y \<noteq> CHR '','') r0 = [] then None
                    else (case dropWhile (\<lambda>y. y \<noteq> CHR '')'') r1 of
                            [] \<Rightarrow> None
                          | y2 # r \<Rightarrow>
                              if takeWhile (\<lambda>y. y \<noteq> CHR '')'') r1 = [] then None
                              else Some ([takeWhile (\<lambda>y. y \<noteq> CHR '','') r0,
                                          second_arg (takeWhile (\<lambda>y. y \<noteq> CHR '')'') r1)],
                                         Some CHR '')'', r)))
             else None)
      else None)"

text \<open>The text after the first occurrence of a character; empty when there is none.\<close>

definition text_after :: "char \<Rightarrow> string \<Rightarrow> string" where
  "text_after c s = tl (dropWhile (\<lambda>y. y \<noteq> c) s)"

text \<open>The number of matches \<^verbatim>\<open>re.findall\<close> finds.\<close>

definition count_matches :: "pattern \<Rightarrow> string \<Rightarrow> nat" where
  "count_matches p s = length (findall p s True)"

section \<open>The conversion always returns\<close>

text \<open>
  A template replacement never raises, so the post-processing pass, whose replacements
  are all templates, returns for every text, and so does \<open>replace_func\<close>.
\<close>

lemma substitute_template: "\<exists>t. substitute (Template tp) ps = Inr t"
proof (induction ps)
  case Nil
  show ?case by simp
next
  case (Cons a ps)
  then obtain t where t: "substitute (Template tp) ps = Inr t" by blast
  show ?case by (cases a) (simp_all add: t)
qed

lemma re_sub_template: "\<exists>t. re_sub p (Template tp) s ic = Inr t"
  by (simp add: re_sub_def substitute_template)

lemma sub_each_returns: "\<exists>t. sub_each ms s = Inr t"
proof (induction ms arbitrary: s)
  case Nil
  show ?case by simp
next
  case (Cons a ms)
  obtain old new where a: "a = (old, new)" by (cases a)
  obtain u where u: "re_sub old (Template new) s True = Inr u"
    using re_sub_template by blast
  show ?case using Cons.IH [of u] by (simp add: a u bind_def)
qed

lemma transformations_return: "\<exists>t. apply_additional_transformations s = Inr t"
proof -
  obtain s1 where s1: "sub_each type_mappings s = Inr s1"
    using sub_each_returns by blast
  obtain s2 where s2: "re_sub interval_pattern (Template interval_template)
      (str_replace s1 (CHR 0x60) [CHR 0x22]) True = Inr s2"
    using re_sub_template by blast
  obtain s3 where s3: "re_sub backslash_pattern (Template backslash_template) s2 False = Inr s3"
    using re_sub_template by blast
  obtain s4 where s4: "sub_each function_replacements s3 = Inr s4"
    using sub_each_returns by blast
  show ?thesis
    by (simp add: apply_additional_transformations_def bind_def s1 s2 s3 s4)
qed

lemma replace_func_returns: "\<exists>t ws st. replace_func s = Inr (t, ws, st)"
proof -
  obtain u ws st where e: "apply_mappings function_mappings (s, [], initial_stats) = (u, ws, st)"
    by (cases "apply_mappings function_mappings (s, [], initial_stats)")
  obtain t where t: "apply_additional_transformations u = Inr t"
    using transformations_return by blast
  show ?thesis by (simp add: replace_func_def replace_func_with_def e t)
qed

lemma apply_mappings_Cons: "apply_mappings (mp # mps) st = apply_mappings mps (apply_mapping mp st)"
  by (simp add: apply_mappings_def)


section \<open>Exceptions of a single rule\<close>

lemma date_add_3_months_raises:
  "re_sub (two_args ''date_add'') (Callable replace_date_add) ''date_add(d, 3 months)'' True =
     Inl (IndexError ''list index out of range'')"
  by code_simp


text \<open>
  C5. When the substitution of a rule raises, the loop goes on to the remaining rules
  with the text unchanged, one warning appended that names the rule and carries the
  message of the exception, and the error counter one higher; the conversion counts are
  untouched. Nothing reaches the caller: \<open>replace_func\<close> returns a tuple for every input.
\<close>

theorem rule_exception_absorbed:
  assumes "re_sub (pattern mp) (replacement mp) sql True = Inl e"
  shows "apply_mappings (mp # rest) (sql, warnings, stats) =
           apply_mappings rest
             (sql, warnings @ [''Warning: Failed to apply '' @ name mp @ '' conversion: '' @ str_of e],
              stats\<lparr>errors := errors stats + 1\<rparr>)
         \<and> (\<exists>t ws st. replace_func s = Inr (t, ws, st))"
  using assms replace_func_returns [of s]
  by (simp add: apply_mappings_Cons apply_mapping_def Let_def)


theorem rule_exception_absorbed_witness:
  "re_sub (two_args ''date_add'') (Callable replace_date_add) ''date_add(d, 3 months)'' True =
     Inl (IndexError ''list index out of range'') \<and>
   apply_mappings [\<lparr>name = ''date_add'', pattern = two_args ''date_add'',
                    replacement = Callable replace_date_add\<rparr>]
     (''date_add(d, 3 months)'', [], initial_stats) =
   (''date_add(d, 3 months)'',
    [''Warning: Failed to apply date_add conversion: list index out of range''],
    \<lparr>total_conversions = 0, functions_converted = [], errors = 1\<rparr>)"
  using rule_exception_absorbed [of "\<lparr>name = ''date_add'', pattern = two_args ''date_add'',
      replacement = Callable replace_date_add\<rparr>" "''date_add(d, 3 months)''"
      "IndexError ''list index out of range''" "[]" "[]" initial_stats]
  by (simp add: date_add_3_months_raises apply_mappings_def initial_stats_def)


section \<open>Exceptions after the loop\<close>

lemma rules_on_empty: "apply_mappings function_mappings ([], [], initial_stats) = ([], [], initial_stats)"
  by code_simp


text \<open>
  C6. When the post-processing pass or the validation raises, the handler appends the
  warning \<^verbatim>\<open>Failed to convert SQL: ...\<close>, adds one to the error counter and raises the
  exception again: the call yields the exception, not a result tuple.
\<close>

theorem fatal_exception_reraised:
  assumes "apply_mappings function_mappings (s, [], initial_stats) = (t, ws, st)"
  shows "(transform t = Inl e \<longrightarrow>
            replace_func_with transform validate s =
              Inl (e, ws @ [''Failed to convert SQL: '' @ str_of e], st\<lparr>errors := errors st + 1\<rparr>))
       \<and> (transform t = Inr t' \<and> validate t' = Inl e \<longrightarrow>
            replace_func_with transform validate s =
              Inl (e, ws @ [''Failed to convert SQL: '' @ str_of e], st\<lparr>errors := errors st + 1\<rparr>))"
  using assms by (simp add: replace_func_with_def fatal_def)

theorem fatal_exception_reraised_witness:
  "apply_mappings function_mappings ([], [], initial_stats) = ([], [], initial_stats) \<and>
   replace_func_with (\<lambda>t. Inl (Exception ''out of memory'')) (\<lambda>t. Inr []) [] =
     Inl (Exception ''out of memory'', [''Failed to convert SQL: out of memory''],
          \<lparr>total_conversions = 0, functions_converted = [], errors = 1\<rparr>) \<and>
   replace_func_with (\<lambda>t. Inr t) (\<lambda>t. Inl (Exception ''out of memory'')) [] =
     Inl (Exception ''out of memory'', [''Failed to convert SQL: out of memory''],
          \<lparr>total_conversions = 0, functions_converted = [], errors = 1\<rparr>)"
  using fatal_exception_reraised [OF rules_on_empty,
      where transform = "\<lambda>t. Inl (Exception ''out of memory'')" and e = "Exception ''out of memory''"
        and validate = "\<lambda>t. Inr []" and t' = "[]"]
    fatal_exception_reraised [OF rules_on_empty,
      where transform = "\<lambda>t. Inr t" and e = "Exception ''out of memory''"
        and validate = "\<lambda>t. Inl (Exception ''out of memory'')" and t' = "[]"]
    rules_on_empty
  by (simp add: initial_stats_def)

section \<open>Sample conversions\<close>

text \<open>Whole runs of \<open>replace_func\<close>, evaluated with the equations of the definitions.\<close>

lemma run_unbalanced:
  "replace_func ''to_utc_timestamp(d, ()'' =
     Inr (''at_timezone(d, 'UTC')'', [],
          \<lparr>total_conversions = 1, functions_converted = [(''to_utc_timestamp'', 1)], errors = 0\<rparr>)"
  by code_simp

lemma run_open_paren:
  "replace_func ''('' =
     Inr (''('', [''Unbalanced parentheses detected''],
          \<lparr>total_conversions = 0, functions_converted = [], errors = 0\<rparr>)"
  by code_simp

lemma run_strleft:
  "replace_func ''strleft(s, n)'' =
     Inr (''strsubstring(s, 1, n)'', [],
          \<lparr>total_conversions = 1, functions_converted = [(''left'', 1)], errors = 0\<rparr>)"
  by code_simp

lemma run_left:
  "replace_func ''left(s, n)'' =
     Inr (''substring(s, 1, n)'', [],
          \<lparr>total_conversions = 1, functions_converted = [(''left'', 1)], errors = 0\<rparr>)"
  by code_simp

lemma run_date_add_5:
  "replace_func ''date_add(d, 5)'' =
     Inr (''date_add('day', 5, CAST(d AS TIMESTAMP))'', [],
          \<lparr>total_conversions = 0, functions_converted = [], errors = 0\<rparr>)"
  by code_simp

lemma run_date_sub:
  "replace_func ''date_sub(col, interval 2 days)'' =
     Inr (''date_add('day', -2, col)'', [],
          \<lparr>total_conversions = 1, functions_converted = [(''date_sub'', 1)], errors = 0\<rparr>)"
  by code_simp

lemma run_3_months:
  "replace_func ''date_add(d, 3 months)'' =
     Inr (''date_add(d, 3 months)'',
          [''Warning: Failed to apply date_add conversion: list index out of range''],
          \<lparr>total_conversions = 0, functions_converted = [], errors = 1\<rparr>)"
  by code_simp

section \<open>The statistics\<close>

lemma update_fresh: "k \<notin> fst ` set al \<Longrightarrow> AList.update k v al = al @ [(k, v)]"
  by (induction al) auto

lemma distinct_names: "distinct (map name function_mappings)"
  by (simp add: function_mappings_def)

lemma apply_mapping_cases:
  assumes "apply_mapping mp (sql, ws, st) = (sql', ws', st')"
  shows "st' = st\<lparr>errors := errors st + 1\<rparr> \<or> st' = st \<or>
     (\<exists>n. 0 < n \<and> st' = st\<lparr>functions_converted := AList.update (name mp) n (functions_converted st),
                             total_conversions := total_conversions st + n\<rparr>)"
proof (cases "re_sub (pattern mp) (replacement mp) sql True")
  case (Inl e)
  then show ?thesis using assms by (simp add: apply_mapping_def Let_def)
next
  case (Inr t)
  define n where "n = int (length (findall (pattern mp) sql True)) - int (length (findall (pattern mp) t True))"
  show ?thesis
  proof (cases "0 < n")
    case True
    then have "st' = st\<lparr>functions_converted := AList.update (name mp) n (functions_converted st),
                          total_conversions := total_conversions st + n\<rparr>"
      using assms Inr by (auto simp add: apply_mapping_def Let_def n_def)
    then show ?thesis using True by blast
  next
    case False
    then have "st' = st"
      using assms Inr by (auto simp add: apply_mapping_def Let_def n_def)
    then show ?thesis by blast
  qed
qed

lemma apply_mapping_stats:
  assumes step: "apply_mapping mp (sql, ws, st) = (sql', ws', st')"
    and fresh: "name mp \<notin> fst ` set (functions_converted st)"
    and pos: "\<forall>kv \<in> set (functions_converted st). 1 \<le> snd kv"
    and tot: "total_conversions st = sum_list (map snd (functions_converted st))"
    and err: "0 \<le> errors st"
  shows "(\<forall>kv \<in> set (functions_converted st'). 1 \<le> snd kv) \<and>
         total_conversions st' = sum_list (map snd (functions_converted st')) \<and>
         0 \<le> errors st' \<and>
         fst ` set (functions_converted st') \<subseteq> insert (name mp) (fst ` set (functions_converted st))"
proof -
  consider (raised) "st' = st\<lparr>errors := errors st + 1\<rparr>" | (same) "st' = st"
    | (counted) n where "0 < n"
        "st' = st\<lparr>functions_converted := AList.update (name mp) n (functions_converted st),
                   total_conversions := total_conversions st + n\<rparr>"
    using apply_mapping_cases [OF step] by blast
  then show ?thesis
  proof cases
    case raised
    then show ?thesis using pos tot err by auto
  next
    case same
    then show ?thesis using pos tot err by auto
  next
    case counted
    have fc: "functions_converted st' = functions_converted st @ [(name mp, n)]"
      using counted(2) fresh by (simp add: update_fresh)
    have t: "total_conversions st' = total_conversions st + n"
      and e: "errors st' = errors st"
      using counted(2) by simp_all
    show ?thesis using pos tot err counted(1) by (auto simp: fc t e)
  qed
qed

lemma replace_func_engine:
  assumes "replace_func s = Inr (t, ws, st)"
  shows "\<exists>u ws0. apply_mappings function_mappings (s, [], initial_stats) = (u, ws0, st) \<and>
             apply_additional_transformations u = Inr t \<and> ws = ws0 @ validate_converted_sql t"
proof -
  obtain u ws0 st0 where e: "apply_mappings function_mappings (s, [], initial_stats) = (u, ws0, st0)"
    by (cases "apply_mappings function_mappings (s, [], initial_stats)")
  obtain t' where t': "apply_additional_transformations u = Inr t'"
    using transformations_return by blast
  have "replace_func s = Inr (t', ws0 @ validate_converted_sql t', st0)"
    by (simp add: replace_func_def replace_func_with_def e t')
  then show ?thesis using assms e t' by simp
qed

lemma apply_mappings_stats:
  assumes "apply_mappings mps (sql, ws, st) = (sql', ws', st')"
    and "distinct (map name mps)"
    and "set (map name mps) \<inter> fst ` set (functions_converted st) = {}"
    and "\<forall>kv \<in> set (functions_converted st). 1 \<le> snd kv"
    and "total_conversions st = sum_list (map snd (functions_converted st))"
    and "0 \<le> errors st"
  shows "(\<forall>kv \<in> set (functions_converted st'). 1 \<le> snd kv) \<and>
         total_conversions st' = sum_list (map snd (functions_converted st')) \<and>
         0 \<le> errors st'"
  using assms
proof (induction mps arbitrary: sql ws st)
  case Nil
  then show ?case by (simp add: apply_mappings_def)
next
  case (Cons mp mps)
  obtain sql1 ws1 st1 where step: "apply_mapping mp (sql, ws, st) = (sql1, ws1, st1)"
    by (cases "apply_mapping mp (sql, ws, st)")
  have fresh: "name mp \<notin> fst ` set (functions_converted st)"
    using Cons.prems(3) by auto
  note inv = apply_mapping_stats [OF step fresh Cons.prems(4) Cons.prems(5) Cons.prems(6)]
  have rest: "apply_mappings mps (sql1, ws1, st1) = (sql', ws', st')"
    using Cons.prems(1) step by (simp add: apply_mappings_Cons)
  have sub: "fst ` set (functions_converted st1) \<subseteq> insert (name mp) (fst ` set (functions_converted st))"
    using inv by (elim conjE)
  have nm: "name mp \<notin> set (map name mps)"
    using Cons.prems(2) by simp
  have d0: "set (map name mps) \<inter> fst ` set (functions_converted st) = {}"
    using Cons.prems(3) by auto
  have disj: "set (map name mps) \<inter> fst ` set (functions_converted st1) = {}"
  proof (rule ccontr)
    assume "set (map name mps) \<inter> fst ` set (functions_converted st1) \<noteq> {}"
    then obtain k where k1: "k \<in> set (map name mps)" and k2: "k \<in> fst ` set (functions_converted st1)"
      by auto
    from k2 sub have "k = name mp \<or> k \<in> fst ` set (functions_converted st)" by auto
    then show False
    proof
      assume "k = name mp"
      with k1 nm show False by simp
    next
      assume "k \<in> fst ` set (functions_converted st)"
      with k1 have "k \<in> set (map name mps) \<inter> fst ` set (functions_converted st)" by (rule IntI)
      with d0 show False by simp
    qed
  qed
  have d: "distinct (map name mps)"
    using Cons.prems(2) by simp
  have p1: "\<forall>kv \<in> set (functions_converted st1). 1 \<le> snd kv"
    using inv by (elim conjE)
  have t1: "total_conversions st1 = sum_list (map snd (functions_converted st1))"
    using inv by (elim conjE)
  have e1: "0 \<le> errors st1"
    using inv by (elim conjE)
  show ?case
    by (rule Cons.IH [OF rest d disj p1 t1 e1])
qed

text \<open>
  C9. In the statistics returned, every count recorded in \<open>functions_converted\<close> is at
  least 1, \<open>total_conversions\<close> is the sum of these counts and so is not negative, and
  \<open>errors\<close> is not negative.
\<close>

theorem stats_invariant:
  assumes "replace_func s = Inr (t, ws, st)"
  shows "(\<forall>kv \<in> set (functions_converted st). 1 \<le> snd kv) \<and>
         total_conversions st = sum_list (map snd (functions_converted st)) \<and>
         0 \<le> total_conversions st \<and> 0 \<le> errors st"
proof -
  obtain u ws0 where e: "apply_mappings function_mappings (s, [], initial_stats) = (u, ws0, st)"
    using replace_func_engine [OF assms] by blast
  have inv: "(\<forall>kv \<in> set (functions_converted st). 1 \<le> snd kv) \<and>
         total_conversions st = sum_list (map snd (functions_converted st)) \<and>
         0 \<le> errors st"
  proof (rule apply_mappings_stats [OF e distinct_names])
    show "set (map name function_mappings) \<inter> fst ` set (functions_converted initial_stats) = {}"
      by (simp add: initial_stats_def)
    show "\<forall>kv \<in> set (functions_converted initial_stats). 1 \<le> snd kv"
      by (simp add: initial_stats_def)
    show "total_conversions initial_stats = sum_list (map snd (functions_converted initial_stats))"
      by (simp add: initial_stats_def)
    show "0 \<le> errors initial_stats"
      by (simp add: initial_stats_def)
  qed
  have "0 \<le> sum_list (map snd (functions_converted st))"
  proof (rule sum_list_nonneg)
    fix x assume "x \<in> set (map snd (functions_converted st))"
    then obtain kv where "kv \<in> set (functions_converted st)" "x = snd kv" by auto
    then show "0 \<le> x" using inv by force
  qed
  then show ?thesis using inv by simp
qed

theorem stats_invariant_witness:
  "replace_func ''left(s, n)'' =
     Inr (''substring(s, 1, n)'', [],
          \<lparr>total_conversions = 1, functions_converted = [(''left'', 1)], errors = 0\<rparr>) \<and>
   (1::int) \<le> snd (''left'', 1::int) \<and>
   (1::int) = sum_list (map snd [(''left'', 1::int)])"
  using stats_invariant [OF run_left] run_left by simp

section \<open>The parenthesis warning\<close>

lemma apply_mapping_warnings:
  assumes "apply_mapping mp (sql, ws, st) = (sql', ws', st')"
  shows "ws' = ws \<or> (\<exists>e. ws' = ws @ [''Warning: Failed to apply '' @ name mp @ '' conversion: '' @ str_of e])"
proof (cases "re_sub (pattern mp) (replacement mp) sql True")
  case (Inl e)
  then have "ws' = ws @ [''Warning: Failed to apply '' @ name mp @ '' conversion: '' @ str_of e]"
    using assms by (auto simp add: apply_mapping_def Let_def)
  then show ?thesis by blast
next
  case (Inr u)
  then have "ws' = ws"
    using assms by (auto simp add: apply_mapping_def Let_def split: if_splits)
  then show ?thesis by simp
qed

lemma apply_mappings_warnings:
  assumes "apply_mappings mps (sql, ws, st) = (sql', ws', st')"
    and "\<forall>w \<in> set ws. take 1 w = ''W''"
  shows "\<forall>w \<in> set ws'. take 1 w = ''W''"
  using assms
proof (induction mps arbitrary: sql ws st)
  case Nil
  then show ?case by (simp add: apply_mappings_def)
next
  case (Cons mp mps)
  obtain sql1 ws1 st1 where step: "apply_mapping mp (sql, ws, st) = (sql1, ws1, st1)"
    by (cases "apply_mapping mp (sql, ws, st)")
  have rest: "apply_mappings mps (sql1, ws1, st1) = (sql', ws', st')"
    using Cons.prems(1) step by (simp add: apply_mappings_Cons)
  have "\<forall>w \<in> set ws1. take 1 w = ''W''"
    using apply_mapping_warnings [OF step] Cons.prems(2) by auto
  then show ?case by (rule Cons.IH [OF rest])
qed

lemma unbalanced_in_validation:
  "''Unbalanced parentheses detected'' \<in> set (validate_converted_sql t) \<longleftrightarrow>
     count_list t CHR ''('' \<noteq> count_list t CHR '')''"
  by (simp add: validate_converted_sql_def)

text \<open>
  C7, as stated, fails: the validator counts the parentheses of the converted text, and
  a rule can drop a captured argument. \<^verbatim>\<open>to_utc_timestamp(d, ()\<close> has two opening and
  one closing parenthesis; its conversion is balanced and carries no warning.
\<close>

theorem unbalanced_input_counterexample:
  "count_list ''to_utc_timestamp(d, ()'' CHR ''('' \<noteq> count_list ''to_utc_timestamp(d, ()'' CHR '')'' \<and>
   replace_func ''to_utc_timestamp(d, ()'' =
     Inr (''at_timezone(d, 'UTC')'', [],
          \<lparr>total_conversions = 1, functions_converted = [(''to_utc_timestamp'', 1)], errors = 0\<rparr>)"
  by (simp add: run_unbalanced)

text \<open>
  C7, amended. The warnings returned contain \<^verbatim>\<open>Unbalanced parentheses detected\<close> exactly
  when the text returned has different numbers of opening and closing parentheses.
\<close>

theorem unbalanced_warning_iff:
  assumes "replace_func s = Inr (t, ws, st)"
  shows "''Unbalanced parentheses detected'' \<in> set ws \<longleftrightarrow>
           count_list t CHR ''('' \<noteq> count_list t CHR '')''"
proof -
  obtain u ws0 where e: "apply_mappings function_mappings (s, [], initial_stats) = (u, ws0, st)"
    and ws: "ws = ws0 @ validate_converted_sql t"
    using replace_func_engine [OF assms] by blast
  have "\<forall>w \<in> set ws0. take 1 w = ''W''"
    by (rule apply_mappings_warnings [OF e]) simp
  then have "''Unbalanced parentheses detected'' \<notin> set ws0" by fastforce
  then show ?thesis using ws unbalanced_in_validation [of t] by simp
qed

theorem unbalanced_warning_iff_witness:
  "replace_func ''('' =
     Inr (''('', [''Unbalanced parentheses detected''],
          \<lparr>total_conversions = 0, functions_converted = [], errors = 0\<rparr>) \<and>
   (''Unbalanced parentheses detected'' \<in> set [''Unbalanced parentheses detected'']) =
   (count_list ''('' CHR ''('' \<noteq> count_list ''('' CHR '')'')"
  using unbalanced_warning_iff [OF run_open_paren] run_open_paren by simp

section \<open>The order of the rules\<close>

text \<open>
  C3. The claim does not hold of the code: the rule \<^verbatim>\<open>left\<close> comes before the rule
  \<^verbatim>\<open>strleft\<close> in the table and its pattern matches inside \<^verbatim>\<open>strleft(\<close>, so that
  \<^verbatim>\<open>strleft(s, n)\<close> becomes \<^verbatim>\<open>strsubstring(s, 1, n)\<close>, while \<^verbatim>\<open>left(s, n)\<close>
  becomes \<^verbatim>\<open>substring(s, 1, n)\<close>.
\<close>

theorem strleft_shadowed_by_left:
  "replace_func ''strleft(s, n)'' =
     Inr (''strsubstring(s, 1, n)'', [],
          \<lparr>total_conversions = 1, functions_converted = [(''left'', 1)], errors = 0\<rparr>) \<and>
   replace_func ''left(s, n)'' =
     Inr (''substring(s, 1, n)'', [],
          \<lparr>total_conversions = 1, functions_converted = [(''left'', 1)], errors = 0\<rparr>)"
  by (simp add: run_strleft run_left)

section \<open>What a match consumes\<close>

text \<open>
  Induction over the successful runs of the matcher: \<open>res\<close> is the result, and each
  case is one equation of \<open>match_here\<close> on the way to it.
\<close>

lemma match_success_induct [consumes 1, case_names Done One StarMore StarStop Plus Bnd GOpen GClose]:
  assumes ok: "match_here ic p prev s opens caps = Some res"
    and r_done: "\<And>ic prev s opens caps. res = (caps, prev, s) \<Longrightarrow> P ic [] prev s opens caps"
    and r_one: "\<And>ic a p prev c s opens caps.
        accepts ic a c \<Longrightarrow> match_here ic p (Some c) s opens caps = Some res \<Longrightarrow>
        P ic p (Some c) s opens caps \<Longrightarrow> P ic (One a # p) prev (c # s) opens caps"
    and r_more: "\<And>ic a p prev c s opens caps.
        accepts ic a c \<Longrightarrow> match_here ic (Star a # p) (Some c) s opens caps = Some res \<Longrightarrow>
        P ic (Star a # p) (Some c) s opens caps \<Longrightarrow> P ic (Star a # p) prev (c # s) opens caps"
    and r_stop: "\<And>ic a p prev s opens caps.
        match_here ic p prev s opens caps = Some res \<Longrightarrow>
        P ic p prev s opens caps \<Longrightarrow> P ic (Star a # p) prev s opens caps"
    and r_plus: "\<And>ic a p prev c s opens caps.
        accepts ic a c \<Longrightarrow> match_here ic (Star a # p) (Some c) s opens caps = Some res \<Longrightarrow>
        P ic (Star a # p) (Some c) s opens caps \<Longrightarrow> P ic (Plus a # p) prev (c # s) opens caps"
    and r_bnd: "\<And>ic p prev s opens caps.
        at_boundary prev s \<Longrightarrow> match_here ic p prev s opens caps = Some res \<Longrightarrow>
        P ic p prev s opens caps \<Longrightarrow> P ic (Bnd # p) prev s opens caps"
    and r_gopen: "\<And>ic p prev s opens caps.
        match_here ic p prev s (s # opens) caps = Some res \<Longrightarrow>
        P ic p prev s (s # opens) caps \<Longrightarrow> P ic (GOpen # p) prev s opens caps"
    and r_gclose: "\<And>ic p prev s s0 opens caps.
        match_here ic p prev s opens (caps @ [take (length s0 - length s) s0]) = Some res \<Longrightarrow>
        P ic p prev s opens (caps @ [take (length s0 - length s) s0]) \<Longrightarrow>
        P ic (GClose # p) prev s (s0 # opens) caps"
  shows "P ic p prev s opens caps"
  using ok
proof (induction ic p prev s opens caps rule: match_here.induct)
  case (1 ic prev s opens caps)
  then show ?case using r_done by simp
next
  case (3 ic a p prev c s opens caps)
  then have acc: "accepts ic a c" and m: "match_here ic p (Some c) s opens caps = Some res"
    by (simp_all split: if_splits)
  show ?case by (rule r_one [OF acc m "3.IH" [OF acc m]])
next
  case (4 ic a p prev opens caps)
  then have m: "match_here ic p prev [] opens caps = Some res" by simp
  show ?case by (rule r_stop [OF m "4.IH" [OF m]])
next
  case (5 ic a p prev c s opens caps)
  show ?case
  proof (cases "accepts ic a c")
    case True
    show ?thesis
    proof (cases "match_here ic (Star a # p) (Some c) s opens caps")
      case None
      then have m: "match_here ic p prev (c # s) opens caps = Some res"
        using "5.prems" True by simp
      show ?thesis by (rule r_stop [OF m "5.IH"(2) [OF True None m]])
    next
      case (Some r)
      then have m: "match_here ic (Star a # p) (Some c) s opens caps = Some res"
        using "5.prems" True by simp
      show ?thesis by (rule r_more [OF True m "5.IH"(1) [OF True m]])
    qed
  next
    case False
    then have m: "match_here ic p prev (c # s) opens caps = Some res"
      using "5.prems" by simp
    show ?thesis by (rule r_stop [OF m "5.IH"(3) [OF False m]])
  qed
next
  case (7 ic a p prev c s opens caps)
  then have acc: "accepts ic a c"
    and m: "match_here ic (Star a # p) (Some c) s opens caps = Some res"
    by (simp_all split: if_splits)
  show ?case by (rule r_plus [OF acc m "7.IH" [OF acc m]])
next
  case (8 ic p prev s opens caps)
  then have b: "at_boundary prev s" and m: "match_here ic p prev s opens caps = Some res"
    by (simp_all split: if_splits)
  show ?case by (rule r_bnd [OF b m "8.IH" [OF b m]])
next
  case (9 ic p prev s opens caps)
  then have m: "match_here ic p prev s (s # opens) caps = Some res" by simp
  show ?case by (rule r_gopen [OF m "9.IH" [OF m]])
next
  case (11 ic p prev s s0 opens caps)
  then have m: "match_here ic p prev s opens (caps @ [take (length s0 - length s) s0]) = Some res"
    by simp
  show ?case by (rule r_gclose [OF m "11.IH" [OF m]])
qed simp_all

lemma match_here_consumes:
  assumes "match_here ic p prev s opens caps = Some (g, prev', r)"
  shows "\<exists>x. s = x @ r \<and> (\<forall>y \<in> set x. \<exists>it \<in> set p. eats ic it y)"
  using assms
proof (induction rule: match_success_induct)
  case (Done ic prev s opens caps)
  then show ?case by simp
next
  case (One ic a p prev c s opens caps)
  then obtain x where x: "s = x @ r" "\<forall>y \<in> set x. \<exists>it \<in> set p. eats ic it y" by blast
  have "c # s = (c # x) @ r" using x(1) by simp
  moreover have "\<forall>y \<in> set (c # x). \<exists>it \<in> set (One a # p). eats ic it y"
    using x(2) One(1) by auto
  ultimately show ?case by blast
next
  case (StarMore ic a p prev c s opens caps)
  then obtain x where x: "s = x @ r" "\<forall>y \<in> set x. \<exists>it \<in> set (Star a # p). eats ic it y" by blast
  have "c # s = (c # x) @ r" using x(1) by simp
  moreover have "\<forall>y \<in> set (c # x). \<exists>it \<in> set (Star a # p). eats ic it y"
    using x(2) StarMore(1) by auto
  ultimately show ?case by blast
next
  case (Plus ic a p prev c s opens caps)
  then obtain x where x: "s = x @ r" "\<forall>y \<in> set x. \<exists>it \<in> set (Star a # p). eats ic it y" by blast
  have "c # s = (c # x) @ r" using x(1) by simp
  moreover have "\<forall>y \<in> set (c # x). \<exists>it \<in> set (Plus a # p). eats ic it y"
    using x(2) Plus(1) by auto
  ultimately show ?case by blast
next
  case (StarStop ic a p prev s opens caps)
  then show ?case by auto
next
  case (Bnd ic p prev s opens caps)
  then show ?case by auto
next
  case (GOpen ic p prev s opens caps)
  then show ?case by auto
next
  case (GClose ic p prev s s0 opens caps)
  then show ?case by auto
qed

lemma match_here_progress:
  assumes "match_here ic p prev s opens caps = Some (g, prev', r)"
  shows "length r \<le> length s \<and> ((\<exists>it \<in> set p. needs_char it) \<longrightarrow> length r < length s)"
  using assms
proof (induction rule: match_success_induct)
  case (Done ic prev s opens caps)
  then show ?case by simp
next
  case (One ic a p prev c s opens caps)
  then show ?case by simp
next
  case (StarMore ic a p prev c s opens caps)
  then show ?case by simp
next
  case (StarStop ic a p prev s opens caps)
  then show ?case by simp
next
  case (Plus ic a p prev c s opens caps)
  then show ?case by simp
next
  case (Bnd ic p prev s opens caps)
  then show ?case by simp
next
  case (GOpen ic p prev s opens caps)
  then show ?case by simp
next
  case (GClose ic p prev s s0 opens caps)
  then show ?case by simp
qed

lemma opens_step:
  assumes "\<forall>s0 \<in> set opens. \<exists>x. s0 = x @ c # s \<and> (\<forall>y \<in> set x. Q y)" and "Q c"
  shows "\<forall>s0 \<in> set opens. \<exists>x. s0 = x @ s \<and> (\<forall>y \<in> set x. Q y)"
proof
  fix s0 assume "s0 \<in> set opens"
  then obtain x where x: "s0 = x @ c # s" "\<forall>y \<in> set x. Q y" using assms(1) by blast
  have "s0 = (x @ [c]) @ s" using x(1) by simp
  moreover have "\<forall>y \<in> set (x @ [c]). Q y" using x(2) assms(2) by simp
  ultimately show "\<exists>x. s0 = x @ s \<and> (\<forall>y \<in> set x. Q y)" by blast
qed

lemma match_here_captures:
  assumes "match_here ic p prev s opens caps = Some (g, prev', r)"
    and "\<forall>s0 \<in> set opens. \<exists>x. s0 = x @ s \<and> (\<forall>y \<in> set x. Q y)"
    and "\<forall>cp \<in> set caps. \<forall>y \<in> set cp. Q y"
    and "\<forall>it \<in> set p. \<forall>y. eats ic it y \<longrightarrow> Q y"
  shows "\<forall>cp \<in> set g. \<forall>y \<in> set cp. Q y"
  using assms
proof (induction rule: match_success_induct)
  case (Done ic prev s opens caps)
  then show ?case by simp
next
  case (One ic a p prev c s opens caps)
  have q: "Q c" using One.prems(3) One.hyps(1) by simp
  have e: "\<forall>it \<in> set p. \<forall>y. eats ic it y \<longrightarrow> Q y" using One.prems(3) by simp
  show ?case by (rule One.IH [OF opens_step [OF One.prems(1) q] One.prems(2) e])
next
  case (StarMore ic a p prev c s opens caps)
  have q: "Q c" using StarMore.prems(3) StarMore.hyps(1) by simp
  show ?case by (rule StarMore.IH [OF opens_step [OF StarMore.prems(1) q] StarMore.prems(2) StarMore.prems(3)])
next
  case (StarStop ic a p prev s opens caps)
  have e: "\<forall>it \<in> set p. \<forall>y. eats ic it y \<longrightarrow> Q y" using StarStop.prems(3) by simp
  show ?case by (rule StarStop.IH [OF StarStop.prems(1) StarStop.prems(2) e])
next
  case (Plus ic a p prev c s opens caps)
  have q: "Q c" using Plus.prems(3) Plus.hyps(1) by simp
  have e: "\<forall>it \<in> set (Star a # p). \<forall>y. eats ic it y \<longrightarrow> Q y" using Plus.prems(3) by simp
  show ?case by (rule Plus.IH [OF opens_step [OF Plus.prems(1) q] Plus.prems(2) e])
next
  case (Bnd ic p prev s opens caps)
  have e: "\<forall>it \<in> set p. \<forall>y. eats ic it y \<longrightarrow> Q y" using Bnd.prems(3) by simp
  show ?case by (rule Bnd.IH [OF Bnd.prems(1) Bnd.prems(2) e])
next
  case (GOpen ic p prev s opens caps)
  have o: "\<forall>s0 \<in> set (s # opens). \<exists>x. s0 = x @ s \<and> (\<forall>y \<in> set x. Q y)"
    using GOpen.prems(1) by simp
  have e: "\<forall>it \<in> set p. \<forall>y. eats ic it y \<longrightarrow> Q y" using GOpen.prems(3) by simp
  show ?case by (rule GOpen.IH [OF o GOpen.prems(2) e])
next
  case (GClose ic p prev s s0 opens caps)
  obtain x where x: "s0 = x @ s" "\<forall>y \<in> set x. Q y" using GClose.prems(1) by auto
  have o: "\<forall>s0 \<in> set opens. \<exists>x. s0 = x @ s \<and> (\<forall>y \<in> set x. Q y)"
    using GClose.prems(1) by simp
  have "take (length s0 - length s) s0 = x" using x(1) by simp
  then have c: "\<forall>cp \<in> set (caps @ [take (length s0 - length s) s0]). \<forall>y \<in> set cp. Q y"
    using x(2) GClose.prems(2) by simp
  have e: "\<forall>it \<in> set p. \<forall>y. eats ic it y \<longrightarrow> Q y" using GClose.prems(3) by simp
  show ?case by (rule GClose.IH [OF o c e])
qed

lemma match_here_groups:
  assumes "match_here ic p prev s opens caps = Some (g, prev', r)"
  shows "length g = length caps + closes p"
  using assms
proof (induction rule: match_success_induct)
  case (Done ic prev s opens caps)
  then show ?case by simp
next
  case (One ic a p prev c s opens caps)
  then show ?case by simp
next
  case (StarMore ic a p prev c s opens caps)
  then show ?case by simp
next
  case (StarStop ic a p prev s opens caps)
  then show ?case by simp
next
  case (Plus ic a p prev c s opens caps)
  then show ?case by simp
next
  case (Bnd ic p prev s opens caps)
  then show ?case by simp
next
  case (GOpen ic p prev s opens caps)
  then show ?case by simp
next
  case (GClose ic p prev s s0 opens caps)
  then show ?case by simp
qed

section \<open>Backslash runs through the post-processing pass\<close>

lemma scan_Nil:
  assumes "\<exists>it \<in> set p. needs_char it"
  shows "scan ic p prev [] = []"
proof (cases "match_here ic p prev [] [] []")
  case None
  then show ?thesis by simp
next
  case (Some res)
  obtain g prev' r where "res = (g, prev', r)" by (cases res)
  with Some match_here_progress [of ic p prev "[]" "[]" "[]" g prev' r] assms
  show ?thesis by simp
qed

lemma scan_Cons:
  assumes "\<exists>it \<in> set p. needs_char it"
  shows "scan ic p prev (c # s) =
    (case match_here ic p prev (c # s) [] [] of
       None \<Rightarrow> Text c # scan ic p (Some c) s
     | Some (g, prev', r) \<Rightarrow> Match g # scan ic p prev' r)"
proof (cases "match_here ic p prev (c # s) [] []")
  case None
  then show ?thesis by simp
next
  case (Some res)
  obtain g prev' r where res: "res = (g, prev', r)" by (cases res)
  have "length r < length (c # s)"
    using Some res match_here_progress [of ic p prev "c # s" "[]" "[]" g prev' r] assms by simp
  then show ?thesis using Some res by simp
qed

declare scan.simps [simp del]

lemma runs_skip0: "bslash \<notin> set x \<Longrightarrow> runs_from 0 (x @ r) = runs_from 0 r"
  by (induction x) auto

lemma runs_skip:
  assumes "x \<noteq> []" and "bslash \<notin> set x"
  shows "runs_from n (x @ r) = (if n = 0 then [] else [n]) @ runs_from 0 r"
proof -
  obtain c x' where x: "x = c # x'" using assms(1) by (cases x) auto
  have "c \<noteq> bslash" and "bslash \<notin> set x'" using assms(2) x by auto
  then show ?thesis using x runs_skip0 [of x' r] by simp
qed

lemma substitute_preserves_runs:
  assumes safe: "\<forall>it \<in> set p. \<not> eats ic it bslash"
    and need: "\<exists>it \<in> set p. needs_char it"
    and repl: "\<And>g. length g = closes p \<Longrightarrow> \<forall>cp \<in> set g. bslash \<notin> set cp \<Longrightarrow>
                \<exists>t. replace_with rp g = Inr t \<and> t \<noteq> [] \<and> bslash \<notin> set t"
    and sub: "substitute rp (scan ic p prev s) = Inr u"
  shows "runs_from n u = runs_from n s"
  using sub
proof (induction "length s" arbitrary: s prev u n rule: less_induct)
  case less
  show ?case
  proof (cases s)
    case Nil
    then show ?thesis using less.prems by (simp add: scan_Nil [OF need])
  next
    case (Cons c s')
    show ?thesis
    proof (cases "match_here ic p prev (c # s') [] []")
      case None
      then have sc: "scan ic p prev s = Text c # scan ic p (Some c) s'"
        using Cons by (simp add: scan_Cons [OF need])
      then obtain u' where u': "substitute rp (scan ic p (Some c) s') = Inr u'" "u = c # u'"
        using less.prems by (auto split: sum.splits)
      have "\<And>m. runs_from m u' = runs_from m s'"
        using less.hyps [of s' "Some c" u'] u'(1) Cons by simp
      then show ?thesis using u'(2) Cons by simp
    next
      case (Some res)
      obtain g prev' r where res: "res = (g, prev', r)" by (cases res)
      have m: "match_here ic p prev (c # s') [] [] = Some (g, prev', r)"
        using Some res by simp
      have sc: "scan ic p prev s = Match g # scan ic p prev' r"
        using Cons m by (simp add: scan_Cons [OF need])
      obtain x where x: "c # s' = x @ r" "\<forall>y \<in> set x. \<exists>it \<in> set p. eats ic it y"
        using match_here_consumes [OF m] by blast
      have lt: "length r < length s"
        using match_here_progress [OF m] need Cons by simp
      have xne: "x \<noteq> []" using x(1) lt Cons by auto
      have xbs: "bslash \<notin> set x" using x(2) safe by auto
      have gl: "length g = closes p" using match_here_groups [OF m] by simp
      have gq: "\<forall>cp \<in> set g. \<forall>y \<in> set cp. y \<noteq> bslash"
      proof (rule match_here_captures [OF m])
        show "\<forall>s0 \<in> set []. \<exists>x. s0 = x @ c # s' \<and> (\<forall>y \<in> set x. y \<noteq> bslash)" by simp
        show "\<forall>cp \<in> set []. \<forall>y \<in> set cp. y \<noteq> bslash" by simp
        show "\<forall>it \<in> set p. \<forall>y. eats ic it y \<longrightarrow> y \<noteq> bslash" using safe by auto
      qed
      then have gq': "\<forall>cp \<in> set g. bslash \<notin> set cp" by auto
      obtain t where t: "replace_with rp g = Inr t" "t \<noteq> []" "bslash \<notin> set t"
        using repl [OF gl gq'] by blast
      obtain u' where u': "substitute rp (scan ic p prev' r) = Inr u'" "u = t @ u'"
        using less.prems sc t(1) by (auto split: sum.splits)
      have ih: "runs_from 0 u' = runs_from 0 r"
        using less.hyps [OF lt u'(1)] .
      have "runs_from n u = (if n = 0 then [] else [n]) @ runs_from 0 u'"
        using u'(2) runs_skip [OF t(2) t(3)] by simp
      also have "\<dots> = runs_from n (x @ r)"
        using ih runs_skip [OF xne xbs] by simp
      finally show ?thesis using x(1) Cons by simp
    qed
  qed
qed

lemma expand_template_plain: "bslash \<notin> set t \<Longrightarrow> expand_template t g = t"
  by (induction t g rule: expand_template.induct) auto

lemma re_sub_preserves_runs:
  assumes "\<forall>it \<in> set p. \<not> eats ic it bslash"
    and "\<exists>it \<in> set p. needs_char it"
    and "t \<noteq> []" and "bslash \<notin> set t"
    and "re_sub p (Template t) s ic = Inr u"
  shows "runs_from n u = runs_from n s"
proof (rule substitute_preserves_runs [OF assms(1) assms(2)])
  show "substitute (Template t) (scan ic p None s) = Inr u"
    using assms(5) by (simp add: re_sub_def)
next
  fix g :: "string list"
  show "\<exists>t'. replace_with (Template t) g = Inr t' \<and> t' \<noteq> [] \<and> bslash \<notin> set t'"
    using assms(3) assms(4) by (simp add: expand_template_plain)
qed

lemma sub_each_preserves_runs:
  assumes "\<forall>pt \<in> set ms. (\<forall>it \<in> set (fst pt). \<not> eats True it bslash) \<and>
             (\<exists>it \<in> set (fst pt). needs_char it) \<and> snd pt \<noteq> [] \<and> bslash \<notin> set (snd pt)"
    and "sub_each ms s = Inr u"
  shows "runs_from n u = runs_from n s"
  using assms
proof (induction ms arbitrary: s)
  case Nil
  then show ?case by simp
next
  case (Cons pt ms)
  obtain p t where pt: "pt = (p, t)" by (cases pt)
  obtain s1 where s1: "re_sub p (Template t) s True = Inr s1" and rest: "sub_each ms s1 = Inr u"
    using Cons.prems(2) pt by (auto simp: bind_def split: sum.splits)
  have c: "\<forall>it \<in> set p. \<not> eats True it bslash" "\<exists>it \<in> set p. needs_char it" "t \<noteq> []" "bslash \<notin> set t"
    using Cons.prems(1) pt by auto
  have "runs_from n s1 = runs_from n s"
    by (rule re_sub_preserves_runs [OF c s1])
  moreover have "runs_from n u = runs_from n s1"
  proof (rule Cons.IH [OF _ rest])
    show "\<forall>pt \<in> set ms. (\<forall>it \<in> set (fst pt). \<not> eats True it bslash) \<and>
             (\<exists>it \<in> set (fst pt). needs_char it) \<and> snd pt \<noteq> [] \<and> bslash \<notin> set (snd pt)"
      using Cons.prems(1) by simp
  qed
  ultimately show ?case by simp
qed

lemma safe_mappings:
  "list_all (\<lambda>pt. list_all (\<lambda>it. \<not> eats True it bslash) (fst pt) \<and> list_ex needs_char (fst pt) \<and>
      snd pt \<noteq> [] \<and> bslash \<notin> set (snd pt)) type_mappings"
  "list_all (\<lambda>pt. list_all (\<lambda>it. \<not> eats True it bslash) (fst pt) \<and> list_ex needs_char (fst pt) \<and>
      snd pt \<noteq> [] \<and> bslash \<notin> set (snd pt)) function_replacements"
  "list_all (\<lambda>it. \<not> eats True it bslash) interval_pattern \<and> list_ex needs_char interval_pattern"
  by code_simp+

lemma safe_type_mappings:
  "\<forall>pt \<in> set type_mappings. (\<forall>it \<in> set (fst pt). \<not> eats True it bslash) \<and>
             (\<exists>it \<in> set (fst pt). needs_char it) \<and> snd pt \<noteq> [] \<and> bslash \<notin> set (snd pt)"
  using safe_mappings(1) by (simp add: list_all_iff list_ex_iff)

lemma safe_function_replacements:
  "\<forall>pt \<in> set function_replacements. (\<forall>it \<in> set (fst pt). \<not> eats True it bslash) \<and>
             (\<exists>it \<in> set (fst pt). needs_char it) \<and> snd pt \<noteq> [] \<and> bslash \<notin> set (snd pt)"
  using safe_mappings(2) by (simp add: list_all_iff list_ex_iff)

lemma str_replace_runs: "runs_from n (str_replace s (CHR 0x60) [CHR 0x22]) = runs_from n s"
  by (induction s arbitrary: n) (auto simp: str_replace_def bslash_def)

lemma interval_expand:
  "expand_template interval_template [d] = ''INTERVAL '' @ [CHR 0x27] @ d @ [CHR 0x27, CHR '' '']"
  by (simp add: interval_template_def bslash_def is_digit_def group_def)

lemma interval_closes: "closes interval_pattern = 1"
  by (simp add: interval_pattern_def lit_def)

lemma interval_preserves_runs:
  assumes "re_sub interval_pattern (Template interval_template) s True = Inr u"
  shows "runs_from n u = runs_from n s"
proof (rule substitute_preserves_runs)
  show "\<forall>it \<in> set interval_pattern. \<not> eats True it bslash"
    using safe_mappings(3) by (simp add: list_all_iff)
  show "\<exists>it \<in> set interval_pattern. needs_char it"
    using safe_mappings(3) by (simp add: list_ex_iff)
  show "substitute (Template interval_template) (scan True interval_pattern None s) = Inr u"
    using assms by (simp add: re_sub_def)
next
  fix g :: "string list"
  assume l: "length g = closes interval_pattern" and q: "\<forall>cp \<in> set g. bslash \<notin> set cp"
  obtain d where g: "g = [d]" using l interval_closes by (cases g) auto
  have "bslash \<notin> set d" using q g by simp
  then show "\<exists>t. replace_with (Template interval_template) g = Inr t \<and> t \<noteq> [] \<and> bslash \<notin> set t"
    by (simp add: g interval_expand bslash_def)
qed

lemma star_bslash:
  "match_here False [Star (Chr bslash)] prev s opens caps =
     Some (caps, (if takeWhile (\<lambda>y. y = bslash) s = [] then prev else Some bslash),
           dropWhile (\<lambda>y. y = bslash) s)"
  by (induction s arbitrary: prev) auto

lemma backslash_match:
  "match_here False backslash_pattern prev (c # s) [] [] =
     (if c = bslash then Some ([], Some bslash, dropWhile (\<lambda>y. y = bslash) s) else None)"
  by (simp add: backslash_pattern_def star_bslash)

lemma backslash_expand: "expand_template backslash_template g = [bslash, bslash]"
  by (simp add: backslash_template_def)

lemma runs_dropWhile:
  "0 < n \<Longrightarrow> runs_from n s =
     (n + length (takeWhile (\<lambda>y. y = bslash) s)) # runs_from 0 (dropWhile (\<lambda>y. y = bslash) s)"
  by (induction s arbitrary: n) auto

lemma backslash_needs: "\<exists>it \<in> set backslash_pattern. needs_char it"
  by (simp add: backslash_pattern_def)

lemma backslash_substitute:
  assumes "substitute (Template backslash_template) (scan False backslash_pattern prev s) = Inr u"
  shows "runs_from 0 u = replicate (length (runs_from 0 s)) 2 \<and>
         (s = [] \<longrightarrow> u = []) \<and> (\<forall>c s'. s = c # s' \<and> c \<noteq> bslash \<longrightarrow> (\<exists>u'. u = c # u'))"
  using assms
proof (induction "length s" arbitrary: s prev u rule: less_induct)
  case less
  show ?case
  proof (cases s)
    case Nil
    then show ?thesis using less.prems by (simp add: scan_Nil [OF backslash_needs])
  next
    case (Cons c s')
    show ?thesis
    proof (cases "c = bslash")
      case False
      then have sc: "scan False backslash_pattern prev s = Text c # scan False backslash_pattern (Some c) s'"
        using Cons by (simp add: scan_Cons [OF backslash_needs] backslash_match)
      then obtain u' where u': "substitute (Template backslash_template) (scan False backslash_pattern (Some c) s') = Inr u'"
          "u = c # u'"
        using less.prems by (auto split: sum.splits)
      have "runs_from 0 u' = replicate (length (runs_from 0 s')) 2"
        using less.hyps [of s' "Some c" u'] u'(1) Cons by simp
      then show ?thesis using u'(2) Cons False by simp
    next
      case True
      define r where "r = dropWhile (\<lambda>y. y = bslash) s'"
      have sc: "scan False backslash_pattern prev s = Match [] # scan False backslash_pattern (Some bslash) r"
        using Cons True by (simp add: scan_Cons [OF backslash_needs] backslash_match r_def)
      then obtain u' where u': "substitute (Template backslash_template) (scan False backslash_pattern (Some bslash) r) = Inr u'"
          "u = bslash # bslash # u'"
        using less.prems by (auto simp: backslash_expand split: sum.splits)
      have lt: "length r < length s"
        using Cons by (simp add: r_def less_Suc_eq_le length_dropWhile_le)
      note ih = less.hyps [OF lt u'(1)]
      have rs: "runs_from 0 s = (1 + length (takeWhile (\<lambda>y. y = bslash) s')) # runs_from 0 r"
        using Cons True runs_dropWhile [of 1 s'] by (simp add: r_def)
      have "runs_from 2 u' = 2 # runs_from 0 u'"
      proof (cases r)
        case Nil
        then have "u' = []" using ih by simp
        then show ?thesis by simp
      next
        case (Cons d r')
        have "d \<noteq> bslash"
          using Cons hd_dropWhile [of "\<lambda>y. y = bslash" s'] by (auto simp: r_def)
        then obtain u'' where "u' = d # u''" using ih Cons by blast
        then show ?thesis using \<open>d \<noteq> bslash\<close> by simp
      qed
      then have "runs_from 0 u = 2 # runs_from 0 u'"
        using u'(2) by (simp add: numeral_2_eq_2)
      then show ?thesis using ih rs Cons True by simp
    qed
  qed
qed

lemma backslash_step:
  assumes "re_sub backslash_pattern (Template backslash_template) s False = Inr u"
  shows "runs_from 0 u = replicate (length (runs_from 0 s)) 2"
  using backslash_substitute [of None s u] assms by (simp add: re_sub_def)


lemma run_backslashes:
  "replace_func [CHR ''a'', CHR 0x5C, CHR 0x5C, CHR 0x5C, CHR ''b''] =
     Inr ([CHR ''a'', CHR 0x5C, CHR 0x5C, CHR ''b''], [],
          \<lparr>total_conversions = 0, functions_converted = [], errors = 0\<rparr>)"
  by code_simp

lemma run_backslashes_rules:
  "apply_mappings function_mappings ([CHR ''a'', CHR 0x5C, CHR 0x5C, CHR 0x5C, CHR ''b''], [], initial_stats) =
     ([CHR ''a'', CHR 0x5C, CHR 0x5C, CHR 0x5C, CHR ''b''], [], initial_stats)"
  by code_simp


lemma run_dropped_backslash:
  "replace_func (''to_utc_timestamp(d, '' @ [CHR 0x5C] @ '')'') =
     Inr (''at_timezone(d, 'UTC')'', [],
          \<lparr>total_conversions = 1, functions_converted = [(''to_utc_timestamp'', 1)], errors = 0\<rparr>)"
  by code_simp


text \<open>
  C8, as stated, fails: the runs that are doubled are those of the text as the rule loop
  leaves it, and a rule can drop or repeat a captured argument. The input
  \<^verbatim>\<open>to_utc_timestamp(d, \)\<close> has one run of backslashes, its conversion has none.
\<close>

theorem backslash_run_dropped_counterexample:
  "backslash_runs (''to_utc_timestamp(d, '' @ [CHR 0x5C] @ '')'') = [1] \<and>
   replace_func (''to_utc_timestamp(d, '' @ [CHR 0x5C] @ '')'') =
     Inr (''at_timezone(d, 'UTC')'', [],
          \<lparr>total_conversions = 1, functions_converted = [(''to_utc_timestamp'', 1)], errors = 0\<rparr>) \<and>
   backslash_runs ''at_timezone(d, 'UTC')'' = []"
  using run_dropped_backslash by (simp add: backslash_runs_def bslash_def)

text \<open>
  C8, amended. The text returned has one run of exactly two backslashes for every
  maximal run of backslashes of the text that the rule loop hands to the post-processing
  pass, in the same order; the other steps of the pass neither add, remove, split nor
  join runs. So every maximal run of backslashes of the text returned has length two.
\<close>

theorem backslash_runs_doubled:
  assumes "replace_func s = Inr (t, ws, st)"
  shows "backslash_runs t =
           replicate (length (backslash_runs (fst (apply_mappings function_mappings (s, [], initial_stats))))) 2
         \<and> (\<forall>n \<in> set (backslash_runs t). n = 2)"
proof -
  obtain u ws0 where e: "apply_mappings function_mappings (s, [], initial_stats) = (u, ws0, st)"
    and tr: "apply_additional_transformations u = Inr t"
    using replace_func_engine [OF assms] by blast
  obtain s1 s2 s3 where s1: "sub_each type_mappings u = Inr s1"
    and s2: "re_sub interval_pattern (Template interval_template)
               (str_replace s1 (CHR 0x60) [CHR 0x22]) True = Inr s2"
    and s3: "re_sub backslash_pattern (Template backslash_template) s2 False = Inr s3"
    and s4: "sub_each function_replacements s3 = Inr t"
    using tr by (auto simp: apply_additional_transformations_def bind_def Let_def split: sum.splits)
  have "runs_from 0 s1 = runs_from 0 u"
    by (rule sub_each_preserves_runs [OF safe_type_mappings s1])
  moreover have "runs_from 0 s2 = runs_from 0 (str_replace s1 (CHR 0x60) [CHR 0x22])"
    by (rule interval_preserves_runs [OF s2])
  moreover have "runs_from 0 s3 = replicate (length (runs_from 0 s2)) 2"
    by (rule backslash_step [OF s3])
  moreover have "runs_from 0 t = runs_from 0 s3"
    by (rule sub_each_preserves_runs [OF safe_function_replacements s4])
  ultimately have "backslash_runs t = replicate (length (backslash_runs u)) 2"
    by (simp add: backslash_runs_def str_replace_runs)
  then show ?thesis using e by simp
qed

theorem backslash_runs_doubled_witness:
  "replace_func [CHR ''a'', CHR 0x5C, CHR 0x5C, CHR 0x5C, CHR ''b''] =
     Inr ([CHR ''a'', CHR 0x5C, CHR 0x5C, CHR ''b''], [],
          \<lparr>total_conversions = 0, functions_converted = [], errors = 0\<rparr>) \<and>
   backslash_runs [CHR ''a'', CHR 0x5C, CHR 0x5C, CHR 0x5C, CHR ''b''] = [3] \<and>
   backslash_runs [CHR ''a'', CHR 0x5C, CHR 0x5C, CHR ''b''] = [2]"
  using backslash_runs_doubled [OF run_backslashes] run_backslashes
  by (simp add: run_backslashes_rules backslash_runs_def bslash_def)

section \<open>The two-argument patterns in closed form\<close>

lemma lower_char_low:
  assumes "of_char c < (65::nat)"
  shows "(lower_char x = lower_char c) = (x = c)"
proof -
  have c: "lower_char c = c" using assms by (simp add: lower_char_def Let_def)
  show ?thesis
  proof (cases "(65 \<le> (of_char x :: nat) \<and> (of_char x :: nat) \<le> 90) \<or>
                (192 \<le> (of_char x :: nat) \<and> (of_char x :: nat) \<le> 222 \<and> (of_char x :: nat) \<noteq> 215)")
    case False
    then have "lower_char x = x" by (auto simp add: lower_char_def Let_def)
    then show ?thesis using c by simp
  next
    case True
    then have lx: "lower_char x = char_of (of_char x + 32 :: nat)"
      by (simp add: lower_char_def Let_def)
    have "(of_char (lower_char x) :: nat) = (of_char x + 32) mod 256"
      by (simp add: lx)
    also have "\<dots> = of_char x + 32" using True by auto
    finally have "(of_char (lower_char x) :: nat) \<ge> 65" using True by auto
    then have "lower_char x \<noteq> c" using assms by auto
    moreover have "x \<noteq> c" using True assms by auto
    ultimately show ?thesis using c by simp
  qed
qed

lemma accepts_punct:
  "accepts True (Chr CHR ''('') x = (x = CHR ''('')"
  "accepts True (Chr CHR '','') x = (x = CHR '','')"
  "accepts True (Chr CHR '')'') x = (x = CHR '')'')"
  "accepts True (Except CHR '','') x = (x \<noteq> CHR '','')"
  "accepts True (Except CHR '')'') x = (x \<noteq> CHR '')'')"
  by (simp_all add: lower_char_low)

lemma accepts_except_fun:
  "accepts True (Except CHR '','') = (\<lambda>y. y \<noteq> CHR '','')"
  "accepts True (Except CHR '')'') = (\<lambda>y. y \<noteq> CHR '')'')"
  "accepts True Space = is_space"
  by (rule ext, simp add: lower_char_low)
     (rule ext, simp add: lower_char_low, rule ext, simp)

lemma space_not_punct:
  "is_space x \<Longrightarrow> x \<noteq> CHR ''('' \<and> x \<noteq> CHR '')'' \<and> x \<noteq> CHR '',''"
  by (auto simp: is_space_def space_chars_def)

lemma star_then_one:
  assumes dis: "\<forall>x. accepts ic a x \<longrightarrow> \<not> accepts ic b x"
  shows "match_here ic (Star a # One b # p) prev s opens caps =
    (case dropWhile (accepts ic a) s of
       [] \<Rightarrow> None
     | y # r \<Rightarrow> if accepts ic b y then match_here ic p (Some y) r opens caps else None)"
proof (induction s arbitrary: prev)
  case Nil
  show ?case by simp
next
  case (Cons x s)
  show ?case
  proof (cases "accepts ic a x")
    case True
    then have nb: "\<not> accepts ic b x" using dis by simp
    have "match_here ic (Star a # One b # p) prev (x # s) opens caps =
          match_here ic (Star a # One b # p) (Some x) s opens caps"
      using True nb
      by (cases "match_here ic (Star a # One b # p) (Some x) s opens caps") simp_all
    also have "\<dots> = (case dropWhile (accepts ic a) s of
       [] \<Rightarrow> None
     | y # r \<Rightarrow> if accepts ic b y then match_here ic p (Some y) r opens caps else None)"
      by (rule Cons)
    finally show ?thesis using True by simp
  next
    case False
    then show ?thesis by simp
  qed
qed

lemma star_close_one:
  assumes dis: "\<forall>x. accepts ic a x \<longrightarrow> \<not> accepts ic b x"
  shows "match_here ic (Star a # GClose # One b # p) prev s (s0 # opens) caps =
    (case dropWhile (accepts ic a) s of
       [] \<Rightarrow> None
     | y # r \<Rightarrow> if accepts ic b y
                then match_here ic p (Some y) r opens (caps @ [take (length s0 - length (y # r)) s0])
                else None)"
proof (induction s arbitrary: prev)
  case Nil
  show ?case by simp
next
  case (Cons x s)
  show ?case
  proof (cases "accepts ic a x")
    case True
    then have nb: "\<not> accepts ic b x" using dis by simp
    have fb: "match_here ic (GClose # One b # p) prev (x # s) (s0 # opens) caps = None"
      using nb by simp
    have "match_here ic (Star a # GClose # One b # p) prev (x # s) (s0 # opens) caps =
          match_here ic (Star a # GClose # One b # p) (Some x) s (s0 # opens) caps"
      using True fb
      by (cases "match_here ic (Star a # GClose # One b # p) (Some x) s (s0 # opens) caps") simp_all
    also have "\<dots> = (case dropWhile (accepts ic a) s of
       [] \<Rightarrow> None
     | y # r \<Rightarrow> if accepts ic b y
                then match_here ic p (Some y) r opens (caps @ [take (length s0 - length (y # r)) s0])
                else None)"
      by (rule Cons)
    finally show ?thesis using True by simp
  next
    case False
    then show ?thesis by simp
  qed
qed

lemma header_match:
  assumes dis: "\<forall>x. accepts ic a x \<longrightarrow> \<not> accepts ic b x"
  shows "match_here ic (lit nm @ Star a # One b # p) prev s opens caps =
    (if starts_with ic nm s then
       (case dropWhile (accepts ic a) (drop (length nm) s) of
          [] \<Rightarrow> None
        | y # r \<Rightarrow> if accepts ic b y then match_here ic p (Some y) r opens caps else None)
     else None)"
proof (induction nm arbitrary: prev s)
  case Nil
  show ?case by (simp add: lit_def star_then_one [OF dis])
next
  case (Cons n nm)
  show ?case
  proof (cases s)
    case Nil
    then show ?thesis by (simp add: lit_def)
  next
    case (Cons x s')
    then show ?thesis using Cons.IH [of "Some x" s'] by (simp add: lit_def)
  qed
qed

lemma take_takeWhile:
  assumes d: "dropWhile P s = y # r"
  shows "take (length s - length (y # r)) s = takeWhile P s"
proof -
  have s: "s = takeWhile P s @ y # r" using d takeWhile_dropWhile_id [of P s] by simp
  have "length s = length (takeWhile P s) + length (y # r)"
    by (subst s) (simp only: length_append)
  then have "length s - length (y # r) = length (takeWhile P s)" by simp
  then show ?thesis using takeWhile_eq_take [of P s] by simp
qed

lemma group_plus:
  assumes dis: "\<forall>x. accepts ic a x \<longrightarrow> \<not> accepts ic b x"
  shows "match_here ic (GOpen # Plus a # GClose # One b # p) prev s opens caps =
    (case dropWhile (accepts ic a) s of
       [] \<Rightarrow> None
     | y # r \<Rightarrow> if takeWhile (accepts ic a) s \<noteq> [] \<and> accepts ic b y
                then match_here ic p (Some y) r opens (caps @ [takeWhile (accepts ic a) s])
                else None)"
proof (cases s)
  case Nil
  then show ?thesis by simp
next
  case (Cons x s')
  show ?thesis
  proof (cases "accepts ic a x")
    case False
    then show ?thesis using Cons by simp
  next
    case True
    have step: "match_here ic (GOpen # Plus a # GClose # One b # p) prev s opens caps =
          match_here ic (Star a # GClose # One b # p) (Some x) s' (s # opens) caps"
      using Cons True by simp
    have dw: "dropWhile (accepts ic a) s = dropWhile (accepts ic a) s'"
      using Cons True by simp
    have tw: "takeWhile (accepts ic a) s \<noteq> []"
      using Cons True by simp
    show ?thesis
    proof (cases "dropWhile (accepts ic a) s'")
      case Nil
      have "match_here ic (Star a # GClose # One b # p) (Some x) s' (s # opens) caps = None"
        by (simp only: star_close_one [OF dis] Nil list.case)
      then show ?thesis by (simp only: step dw Nil list.case)
    next
      case (Cons y r)
      have d: "dropWhile (accepts ic a) s = y # r" using Cons dw by simp
      have t: "take (length s - length (y # r)) s = takeWhile (accepts ic a) s"
        by (rule take_takeWhile [OF d])
      have "match_here ic (Star a # GClose # One b # p) (Some x) s' (s # opens) caps =
            (if accepts ic b y then match_here ic p (Some y) r opens (caps @ [takeWhile (accepts ic a) s])
             else None)"
        by (simp only: star_close_one [OF dis] Cons list.case t)
      then show ?thesis using tw by (simp only: step dw Cons list.case) simp
    qed
  qed
qed

lemma last_group:
  "match_here True [GOpen, Plus (Except CHR '')''), GClose, One (Chr CHR '')'')] prev s opens caps =
    (case dropWhile (\<lambda>y. y \<noteq> CHR '')'') s of
       [] \<Rightarrow> None
     | y # r \<Rightarrow> if takeWhile (\<lambda>y. y \<noteq> CHR '')'') s = [] then None
                else Some (caps @ [takeWhile (\<lambda>y. y \<noteq> CHR '')'') s], Some CHR '')'', r))"
proof -
  have dis: "\<forall>x. accepts True (Except CHR '')'') x \<longrightarrow> \<not> accepts True (Chr CHR '')'') x"
    by (simp add: lower_char_low)
  have g: "match_here True [GOpen, Plus (Except CHR '')''), GClose, One (Chr CHR '')'')] prev s opens caps =
    (case dropWhile (\<lambda>y. y \<noteq> CHR '')'') s of
       [] \<Rightarrow> None
     | y # r \<Rightarrow> if takeWhile (\<lambda>y. y \<noteq> CHR '')'') s \<noteq> [] \<and> accepts True (Chr CHR '')'') y
                then match_here True [] (Some y) r opens (caps @ [takeWhile (\<lambda>y. y \<noteq> CHR '')'') s])
                else None)"
    using group_plus [OF dis, where p = "[]" and prev = prev and s = s and opens = opens and caps = caps]
    by (simp only: accepts_except_fun)
  show ?thesis
  proof (cases "dropWhile (\<lambda>y. y \<noteq> CHR '')'') s")
    case Nil
    then show ?thesis by (simp only: g list.case)
  next
    case (Cons y r)
    have "y = CHR '')''" using hd_dropWhile [of "\<lambda>y. y \<noteq> CHR '')''" s] Cons by simp
    then show ?thesis by (simp only: g Cons list.case accepts_punct) simp
  qed
qed

lemma second_arg_simps:
  "\<not> is_space x \<Longrightarrow> second_arg (x # b) = x # b"
  "is_space x \<Longrightarrow> second_arg [x] = [x]"
  "is_space x \<Longrightarrow> b \<noteq> [] \<Longrightarrow> second_arg (x # b) = second_arg b"
  by (simp_all add: second_arg_def)

lemma space_then_last_group:
  "match_here True [Star Space, GOpen, Plus (Except CHR '')''), GClose, One (Chr CHR '')'')]
     prev s opens caps =
    (case dropWhile (\<lambda>y. y \<noteq> CHR '')'') s of
       [] \<Rightarrow> None
     | y # r \<Rightarrow> if takeWhile (\<lambda>y. y \<noteq> CHR '')'') s = [] then None
                else Some (caps @ [second_arg (takeWhile (\<lambda>y. y \<noteq> CHR '')'') s)], Some CHR '')'', r))"
  (is "?lhs prev s = ?rhs s")
proof (induction s arbitrary: prev)
  case Nil
  have "match_here True [Star Space, GOpen, Plus (Except CHR '')''), GClose, One (Chr CHR '')'')]
     prev [] opens caps = match_here True [GOpen, Plus (Except CHR '')''), GClose, One (Chr CHR '')'')]
     prev [] opens caps" by (simp only: match_here.simps)
  then show ?case unfolding last_group list.case_eq_if by simp
next
  case (Cons x s)
  let ?q = "[GOpen, Plus (Except CHR '')''), GClose, One (Chr CHR '')'')]"
  show ?case
  proof (cases "is_space x")
    case False
    then have "?lhs prev (x # s) = match_here True ?q prev (x # s) opens caps"
      by (simp only: match_here.simps accepts.simps if_False)
    also have "\<dots> = ?rhs (x # s)"
    proof (cases "x = CHR '')''")
      case True
      then show ?thesis unfolding last_group by simp
    next
      case xp: False
      have sa: "second_arg (x # takeWhile (\<lambda>y. y \<noteq> CHR '')'') s) = x # takeWhile (\<lambda>y. y \<noteq> CHR '')'') s"
        using False by (rule second_arg_simps(1))
      show ?thesis
        unfolding last_group list.case_eq_if using xp sa by auto
    qed
    finally show ?thesis .
  next
    case True
    then have xp: "x \<noteq> CHR '')''" using space_not_punct by blast
    have unfold: "?lhs prev (x # s) =
        (case ?lhs (Some x) s of Some r \<Rightarrow> Some r
         | None \<Rightarrow> match_here True ?q prev (x # s) opens caps)"
      using True by (simp only: match_here.simps accepts.simps if_True)
    show ?thesis
    proof (cases "dropWhile (\<lambda>y. y \<noteq> CHR '')'') s")
      case Nil
      have "?lhs (Some x) s = None" by (simp only: Cons.IH Nil list.case)
      moreover have "match_here True ?q prev (x # s) opens caps = None"
        unfolding last_group list.case_eq_if using Nil xp by auto
      moreover have "?rhs (x # s) = None" unfolding list.case_eq_if using Nil xp by auto
      ultimately show ?thesis by (simp only: unfold option.case)
    next
      case (Cons y r)
      show ?thesis
      proof (cases "takeWhile (\<lambda>y. y \<noteq> CHR '')'') s = []")
        case True
        have "?lhs (Some x) s = None" using True by (simp only: Cons.IH Cons list.case) simp
        moreover have "match_here True ?q prev (x # s) opens caps = Some (caps @ [[x]], Some CHR '')'', r)"
          unfolding last_group list.case_eq_if using Cons True xp by auto
        moreover have "?rhs (x # s) = Some (caps @ [[x]], Some CHR '')'', r)"
          unfolding list.case_eq_if using Cons True xp \<open>is_space x\<close> by (auto simp add: second_arg_simps)
        ultimately show ?thesis by (simp only: unfold option.case)
      next
        case False
        have "?lhs (Some x) s =
            Some (caps @ [second_arg (takeWhile (\<lambda>y. y \<noteq> CHR '')'') s)], Some CHR '')'', r)"
          using False by (simp only: Cons.IH Cons list.case) simp
        moreover have "?rhs (x # s) =
            Some (caps @ [second_arg (takeWhile (\<lambda>y. y \<noteq> CHR '')'') s)], Some CHR '')'', r)"
          unfolding list.case_eq_if using Cons False xp \<open>is_space x\<close> by (auto simp add: second_arg_simps)
        ultimately show ?thesis by (simp only: unfold option.case)
      qed
    qed
  qed
qed

lemma hd_dropWhile_comma:
  "dropWhile (\<lambda>y. y \<noteq> CHR '','') r \<noteq> [] \<Longrightarrow> hd (dropWhile (\<lambda>y. y \<noteq> CHR '','') r) = CHR '',''"
  using hd_dropWhile [of "\<lambda>y. y \<noteq> CHR '',''" r] by simp

lemma two_args_characterised:
  "match_here True (two_args nm) prev s [] [] = two_args_match nm s"
proof -
  have dis1: "\<forall>x. accepts True Space x \<longrightarrow> \<not> accepts True (Chr CHR ''('') x"
    using space_not_punct by (auto simp add: lower_char_low)
  have dis2: "\<forall>x. accepts True (Except CHR '','') x \<longrightarrow> \<not> accepts True (Chr CHR '','') x"
    by (simp add: lower_char_low)
  show ?thesis
    unfolding two_args_def two_args_match_def header_match [OF dis1] group_plus [OF dis2]
      space_then_last_group accepts_except_fun list.case_eq_if
    by (auto simp add: lower_char_low hd_dropWhile_comma)
qed

section \<open>Counting the matches of a two-argument pattern\<close>

text \<open>
  A match ends after the first closing parenthesis that follows the first comma that
  follows the first opening parenthesis. So a match that starts later does not end
  earlier, and a text has at least as many matches as each of its suffixes.
\<close>

lemma two_args_needs: "\<exists>it \<in> set (two_args nm). needs_char it"
  by (simp add: two_args_def)

lemma two_args_progress:
  "two_args_match nm s = Some (g, pv, r) \<Longrightarrow> length r < length s"
  using match_here_progress [of True "two_args nm" None s "[]" "[]" g pv r] two_args_needs [of nm]
  by (simp add: two_args_characterised)

lemma scan_two_args_Cons:
  "scan True (two_args nm) prev (c # s) =
     (case two_args_match nm (c # s) of
        None \<Rightarrow> Text c # scan True (two_args nm) (Some c) s
      | Some (g, pv, r) \<Rightarrow> Match g # scan True (two_args nm) pv r)"
  by (simp only: scan_Cons [OF two_args_needs] two_args_characterised)

lemma scan_two_args_prev:
  "scan True (two_args nm) prev s = scan True (two_args nm) prev' s"
proof (induction "length s" arbitrary: s prev prev' rule: less_induct)
  case less
  show ?case
  proof (cases s)
    case Nil
    then show ?thesis by (simp add: scan_Nil [OF two_args_needs])
  next
    case (Cons c s')
    show ?thesis
    proof (cases "two_args_match nm (c # s')")
      case None
      then show ?thesis
        using Cons less [of s' "Some c" "Some c"] by (simp add: scan_two_args_Cons)
    next
      case (Some res)
      then show ?thesis using Cons by (simp add: scan_two_args_Cons)
    qed
  qed
qed

lemma count_Nil: "count_matches (two_args nm) [] = 0"
  by (simp add: count_matches_def findall_def scan_Nil [OF two_args_needs])

lemma count_Cons:
  "count_matches (two_args nm) (c # s) =
     (case two_args_match nm (c # s) of
        None \<Rightarrow> count_matches (two_args nm) s
      | Some (g, pv, r) \<Rightarrow> Suc (count_matches (two_args nm) r))"
proof (cases "two_args_match nm (c # s)")
  case None
  then show ?thesis
    using scan_two_args_prev [of nm "Some c" s None]
    by (simp add: count_matches_def findall_def scan_two_args_Cons)
next
  case (Some res)
  obtain g pv r where "res = (g, pv, r)" by (cases res)
  then show ?thesis
    using Some scan_two_args_prev [of nm pv r None]
    by (simp add: count_matches_def findall_def scan_two_args_Cons)
qed

lemma text_after_suffix:
  assumes "suffix t s"
  shows "suffix (text_after c t) (text_after c s)"
proof -
  obtain x where s: "s = x @ t" using assms by (auto simp: suffix_def)
  show ?thesis
  proof (cases "\<forall>y \<in> set x. y \<noteq> c")
    case True
    then have "dropWhile (\<lambda>y. y \<noteq> c) s = dropWhile (\<lambda>y. y \<noteq> c) t"
      using s by (simp add: dropWhile_append2)
    then show ?thesis by (simp add: text_after_def)
  next
    case False
    then have d: "dropWhile (\<lambda>y. y \<noteq> c) s = dropWhile (\<lambda>y. y \<noteq> c) x @ t"
      and ne: "dropWhile (\<lambda>y. y \<noteq> c) x \<noteq> []"
      using s by (auto simp: dropWhile_append1)
    have "text_after c s = tl (dropWhile (\<lambda>y. y \<noteq> c) x) @ t"
      using d ne by (simp add: text_after_def)
    moreover have "suffix (text_after c t) t"
      unfolding text_after_def
      by (meson suffix_dropWhile suffix_order.trans suffix_tl)
    ultimately show ?thesis by (simp add: suffix_appendI)
  qed
qed

lemma starts_with_take:
  assumes "starts_with True nm s"
    and "\<forall>c \<in> set nm. \<forall>x. accepts True (Chr c) x \<longrightarrow> x \<noteq> CHR ''(''"
  shows "\<forall>x \<in> set (take (length nm) s). x \<noteq> CHR ''(''"
  using assms
proof (induction nm arbitrary: s)
  case Nil
  then show ?case by simp
next
  case (Cons n nm)
  then obtain x s' where s: "s = x # s'" by (cases s) auto
  have a: "accepts True (Chr n) x" and r: "starts_with True nm s'"
    using Cons.prems(1) s by simp_all
  have "x \<noteq> CHR ''(''" using Cons.prems(2) a by auto
  moreover have "\<forall>x \<in> set (take (length nm) s'). x \<noteq> CHR ''(''"
    using Cons.IH [OF r] Cons.prems(2) by simp
  ultimately show ?case using s by simp
qed

lemma two_args_match_parts:
  assumes "two_args_match nm s = Some (g, pv, r)"
  shows "starts_with True nm s \<and>
    (\<exists>r0 r1 y1 y2. dropWhile is_space (drop (length nm) s) = CHR ''('' # r0 \<and>
       dropWhile (\<lambda>y. y \<noteq> CHR '','') r0 = y1 # r1 \<and>
       dropWhile (\<lambda>y. y \<noteq> CHR '')'') r1 = y2 # r \<and>
       g = [takeWhile (\<lambda>y. y \<noteq> CHR '','') r0, second_arg (takeWhile (\<lambda>y. y \<noteq> CHR '')'') r1)])"
  using assms unfolding two_args_match_def
  by (auto split: if_splits list.splits)

lemma two_args_match_end:
  assumes m: "two_args_match nm s = Some (g, pv, r)"
    and plain: "\<forall>c \<in> set nm. \<forall>x. accepts True (Chr c) x \<longrightarrow> x \<noteq> CHR ''(''"
  shows "r = text_after CHR '')'' (text_after CHR '','' (text_after CHR ''('' s))"
proof -
  obtain r0 r1 y1 y2 where sw: "starts_with True nm s"
    and d0: "dropWhile is_space (drop (length nm) s) = CHR ''('' # r0"
    and d1: "dropWhile (\<lambda>y. y \<noteq> CHR '','') r0 = y1 # r1"
    and d2: "dropWhile (\<lambda>y. y \<noteq> CHR '')'') r1 = y2 # r"
    using two_args_match_parts [OF m] by blast
  have r: "r = tl (dropWhile (\<lambda>y. y \<noteq> CHR '')'') r1)" using d2 by simp
  have nmfree: "\<forall>x \<in> set (take (length nm) s). x \<noteq> CHR ''(''"
    by (rule starts_with_take [OF sw plain])
  have spfree: "\<forall>x \<in> set (takeWhile is_space (drop (length nm) s)). x \<noteq> CHR ''(''"
    using space_not_punct by (auto dest: set_takeWhileD)
  have "s = take (length nm) s @ takeWhile is_space (drop (length nm) s) @ CHR ''('' # r0"
    using d0 takeWhile_dropWhile_id [of is_space "drop (length nm) s"] by simp
  then have "dropWhile (\<lambda>y. y \<noteq> CHR ''('') s =
      dropWhile (\<lambda>y. y \<noteq> CHR ''('')
        (take (length nm) s @ takeWhile is_space (drop (length nm) s) @ CHR ''('' # r0)"
    by simp
  also have "\<dots> = CHR ''('' # r0"
    using nmfree spfree by (simp add: dropWhile_append2)
  finally have "text_after CHR ''('' s = r0" by (simp add: text_after_def)
  moreover have "text_after CHR '','' r0 = r1" using d1 by (simp add: text_after_def)
  ultimately show ?thesis using r by (simp add: text_after_def)
qed

lemma count_suffix:
  assumes plain: "\<forall>c \<in> set nm. \<forall>x. accepts True (Chr c) x \<longrightarrow> x \<noteq> CHR ''(''"
  shows "suffix t s \<Longrightarrow> count_matches (two_args nm) t \<le> count_matches (two_args nm) s"
proof (induction "length s" arbitrary: s t rule: less_induct)
  case less
  show ?case
  proof (cases s)
    case Nil
    then show ?thesis using less.prems by simp
  next
    case (Cons c s')
    show ?thesis
    proof (cases "t = s")
      case True
      then show ?thesis by simp
    next
      case False
      then have ts': "suffix t s'" using less.prems Cons by (simp add: suffix_Cons)
      show ?thesis
      proof (cases "two_args_match nm s")
        case None
        then have "count_matches (two_args nm) s = count_matches (two_args nm) s'"
          using Cons by (simp add: count_Cons)
        moreover have "count_matches (two_args nm) t \<le> count_matches (two_args nm) s'"
          using less.hyps [of s' t] ts' Cons by simp
        ultimately show ?thesis by simp
      next
        case (Some res)
        obtain g pv r1 where res: "res = (g, pv, r1)" by (cases res)
        have m1: "two_args_match nm s = Some (g, pv, r1)" using Some res by simp
        have cs: "count_matches (two_args nm) s = Suc (count_matches (two_args nm) r1)"
          using m1 Cons by (simp add: count_Cons)
        have lt: "length r1 < length s" by (rule two_args_progress [OF m1])
        have inner: "suffix t' s \<Longrightarrow> count_matches (two_args nm) t' \<le> Suc (count_matches (two_args nm) r1)"
          for t'
        proof (induction t')
          case Nil
          show ?case by (simp add: count_Nil)
        next
          case (Cons d t'')
          have st'': "suffix t'' s" using Cons.prems by (rule suffix_ConsD)
          show ?case
          proof (cases "two_args_match nm (d # t'')")
            case None
            then show ?thesis using Cons.IH [OF st''] by (simp add: count_Cons)
          next
            case (Some res2)
            obtain g2 pv2 r2 where res2: "res2 = (g2, pv2, r2)" by (cases res2)
            have m2: "two_args_match nm (d # t'') = Some (g2, pv2, r2)" using Some res2 by simp
            have "suffix r2 r1"
              unfolding two_args_match_end [OF m2 plain] two_args_match_end [OF m1 plain]
              by (intro text_after_suffix Cons.prems)
            then have "count_matches (two_args nm) r2 \<le> count_matches (two_args nm) r1"
              using less.hyps [OF lt] by simp
            then show ?thesis using m2 by (simp add: count_Cons)
          qed
        qed
        show ?thesis using inner [of t] less.prems cs by simp
      qed
    qed
  qed
qed

section \<open>The rule for date_add\<close>

text \<open>
  Whatever \<open>replace_date_add\<close> returns starts with \<^verbatim>\<open>date_add('\<close> and matches the
  pattern of the rule again, the match ending inside the replacement.
\<close>

lemma starts_with_self: "starts_with True nm (nm @ rest)"
  by (induction nm) simp_all

lemma dropWhile_first:
  "c \<notin> set xs \<Longrightarrow> dropWhile (\<lambda>y. y \<noteq> c) (xs @ c # ys) = c # ys"
  by (induction xs) auto

lemma paren_split:
  assumes "CHR '')'' \<in> set Z" and "z \<noteq> CHR '')''"
  shows "takeWhile (\<lambda>y. y \<noteq> CHR '')'') (z # Z @ v) \<noteq> [] \<and>
         (\<exists>y r. dropWhile (\<lambda>y. y \<noteq> CHR '')'') (z # Z @ v) = y # r \<and> suffix v r)"
proof -
  have "dropWhile (\<lambda>y. y \<noteq> CHR '')'') Z \<noteq> []" using assms(1) by simp
  then obtain y r' where d: "dropWhile (\<lambda>y. y \<noteq> CHR '')'') Z = y # r'"
    by (cases "dropWhile (\<lambda>y. y \<noteq> CHR '')'') Z") auto
  have "dropWhile (\<lambda>y. y \<noteq> CHR '')'') (z # Z @ v) = y # r' @ v"
    using assms d by (simp add: dropWhile_append1)
  moreover have "suffix v (r' @ v)" by (simp add: suffix_def)
  ultimately show ?thesis using assms(2) by simp
qed

lemma match_form:
  assumes "q \<noteq> CHR '',''" and "CHR '','' \<notin> set A1" and "z \<noteq> CHR '')''" and "CHR '')'' \<in> set A2"
  shows "\<exists>g pv r. two_args_match nm (nm @ CHR ''('' # q # A1 @ CHR '','' # z # A2 @ v) = Some (g, pv, r) \<and>
           suffix v r"
proof -
  have ns: "\<not> is_space CHR ''(''" by (simp add: is_space_def space_chars_def)
  have d1: "dropWhile (\<lambda>y. y \<noteq> CHR '','') (q # A1 @ CHR '','' # z # A2 @ v) = CHR '','' # z # A2 @ v"
    using assms(1) assms(2) by (simp add: dropWhile_first)
  have t1: "takeWhile (\<lambda>y. y \<noteq> CHR '','') (q # A1 @ CHR '','' # z # A2 @ v) \<noteq> []"
    using assms(1) by simp
  obtain y r where t2: "takeWhile (\<lambda>y. y \<noteq> CHR '')'') (z # A2 @ v) \<noteq> []"
    and d2: "dropWhile (\<lambda>y. y \<noteq> CHR '')'') (z # A2 @ v) = y # r" and suf: "suffix v r"
    using paren_split [OF assms(4) assms(3)] by blast
  have "two_args_match nm (nm @ CHR ''('' # q # A1 @ CHR '','' # z # A2 @ v) =
      Some ([takeWhile (\<lambda>y. y \<noteq> CHR '','') (q # A1 @ CHR '','' # z # A2 @ v),
             second_arg (takeWhile (\<lambda>y. y \<noteq> CHR '')'') (z # A2 @ v))], Some CHR '')'', r)"
  proof -
    let ?X = "q # A1 @ CHR '','' # z # A2 @ v"
    have dr: "drop (length nm) (nm @ CHR ''('' # ?X) = CHR ''('' # ?X" by simp
    have d0: "dropWhile is_space (CHR ''('' # ?X) = CHR ''('' # ?X" using ns by simp
    show ?thesis
      unfolding two_args_match_def
      by (simp only: starts_with_self if_True dr d0 list.case refl d1 t1 d2 t2 if_False)
  qed
  then show ?thesis using suf by blast
qed

lemma split_from_set: "t \<in> set (split_from cur s) \<Longrightarrow> set t \<subseteq> set cur \<union> set s"
proof (induction s arbitrary: cur)
  case Nil
  then show ?case by (auto split: if_splits)
next
  case (Cons c s)
  show ?case
  proof (cases "is_space c")
    case True
    then have "t = cur \<or> t \<in> set (split_from [] s)"
      using Cons.prems by (auto split: if_splits)
    then show ?thesis using Cons.IH [of "[]"] by auto
  next
    case False
    then have "t \<in> set (split_from (cur @ [c]) s)" using Cons.prems by simp
    then show ?thesis using Cons.IH [of "cur @ [c]"] by auto
  qed
qed

lemma split_set: "t \<in> set (split s) \<Longrightarrow> set t \<subseteq> set s"
  using split_from_set [of t "[]" s] by (simp add: split_def)

lemma second_arg_set: "b \<noteq> [] \<Longrightarrow> set (second_arg b) \<subseteq> set b"
  by (auto simp: second_arg_def dest: set_dropWhileD)

lemma two_args_match_groups:
  assumes "two_args_match nm s = Some (g, pv, r)"
  shows "\<exists>g1 g2. g = [g1, g2] \<and> CHR '')'' \<notin> set g2"
proof -
  obtain r0 r1 where g: "g = [takeWhile (\<lambda>y. y \<noteq> CHR '','') r0,
      second_arg (takeWhile (\<lambda>y. y \<noteq> CHR '')'') r1)]"
    and ne: "takeWhile (\<lambda>y. y \<noteq> CHR '')'') r1 \<noteq> []"
    using assms unfolding two_args_match_def by (auto split: if_splits list.splits)
  have "CHR '')'' \<notin> set (takeWhile (\<lambda>y. y \<noteq> CHR '')'') r1)"
    by (auto dest: set_takeWhileD)
  then have "CHR '')'' \<notin> set (second_arg (takeWhile (\<lambda>y. y \<noteq> CHR '')'') r1))"
    using second_arg_set [OF ne] by blast
  then show ?thesis using g by blast
qed

lemma date_add_output:
  assumes out: "replace_date_add [g1, g2] = Inr R" and g2: "CHR '')'' \<notin> set g2"
  shows "\<exists>g pv r. two_args_match ''date_add'' (R @ v) = Some (g, pv, r) \<and> suffix v r"
proof (cases "length (split g2) = 1")
  case True
  then have R: "R = ''date_add'' @ CHR ''('' # CHR 0x27 # ''day'' @ [CHR 0x27] @ CHR '','' # CHR '' '' #
      (g2 @ '', CAST('' @ g1 @ '' AS TIMESTAMP))'')"
    using out by (simp add: replace_date_add_def group_def Let_def)
  have "\<exists>g pv r. two_args_match ''date_add''
      (''date_add'' @ CHR ''('' # CHR 0x27 # (''day'' @ [CHR 0x27]) @ CHR '','' # CHR '' '' #
         (g2 @ '', CAST('' @ g1 @ '' AS TIMESTAMP))'') @ v) = Some (g, pv, r) \<and> suffix v r"
    by (rule match_form) simp_all
  then show ?thesis by (simp add: R)
next
  case False
  obtain vp unit0 where vp: "list_index (split g2) 1 = Inr vp"
    and u0: "list_index (split g2) 2 = Inr unit0"
    and R0: "R = ''date_add('' @ [CHR 0x27] @ (if endswith unit0 CHR ''s'' then butlast unit0 else unit0) @
        [CHR 0x27] @ '', '' @ vp @ '', '' @ g1 @ '')''"
    using out False
    by (auto simp add: replace_date_add_def group_def Let_def split: sum.splits)
  define unit where "unit = (if endswith unit0 CHR ''s'' then butlast unit0 else unit0)"
  have "unit0 \<in> set (split g2)"
    using u0 by (auto simp: list_index_def split: if_splits)
  then have "CHR '')'' \<notin> set unit0" using split_set g2 by blast
  then have up: "CHR '')'' \<notin> set unit"
    by (auto simp: unit_def dest: in_set_butlastD)
  let ?tail = "vp @ '', '' @ g1 @ '')''"
  have R: "R @ v = ''date_add'' @ CHR ''('' # CHR 0x27 # unit @ CHR 0x27 # CHR '','' # CHR '' '' # ?tail @ v"
    using R0 by (simp add: unit_def)
  show ?thesis
  proof (cases "CHR '','' \<in> set unit")
    case False
    have "\<exists>g pv r. two_args_match ''date_add''
        (''date_add'' @ CHR ''('' # CHR 0x27 # (unit @ [CHR 0x27]) @ CHR '','' # CHR '' '' # ?tail @ v)
          = Some (g, pv, r) \<and> suffix v r"
      by (rule match_form) (use False in simp_all)
    then show ?thesis by (simp add: R)
  next
    case True
    then obtain u1 u2 where u: "unit = u1 @ CHR '','' # u2" and u1: "CHR '','' \<notin> set u1"
      by (meson split_list_first)
    show ?thesis
    proof (cases u2)
      case Nil
      have "\<exists>g pv r. two_args_match ''date_add''
          (''date_add'' @ CHR ''('' # CHR 0x27 # u1 @ CHR '','' # CHR 0x27 #
             (CHR '','' # CHR '' '' # ?tail) @ v) = Some (g, pv, r) \<and> suffix v r"
        by (rule match_form) (use u1 in simp_all)
      then show ?thesis by (simp add: R u Nil)
    next
      case (Cons z u2')
      have z: "z \<noteq> CHR '')''" using up u Cons by auto
      have "\<exists>g pv r. two_args_match ''date_add''
          (''date_add'' @ CHR ''('' # CHR 0x27 # u1 @ CHR '','' # z #
             (u2' @ CHR 0x27 # CHR '','' # CHR '' '' # ?tail) @ v) = Some (g, pv, r) \<and> suffix v r"
        by (rule match_form) (use u1 z in simp_all)
      then show ?thesis by (simp add: R u Cons)
    qed
  qed
qed

lemma date_add_plain:
  "\<forall>c \<in> set ''date_add''. \<forall>x. accepts True (Chr c) x \<longrightarrow> x \<noteq> CHR ''(''"
proof (intro ballI allI impI)
  fix c x assume c: "c \<in> set ''date_add''" and a: "accepts True (Chr c) x"
  show "x \<noteq> CHR ''(''"
  proof
    assume "x = CHR ''(''"
    then have "lower_char c = lower_char CHR ''(''" using a by simp
    then have "c = CHR ''(''" by (simp add: lower_char_low)
    then show False using c by simp
  qed
qed

lemma count_match:
  assumes "two_args_match nm s = Some (g, pv, r)"
  shows "count_matches (two_args nm) s = Suc (count_matches (two_args nm) r)"
proof (cases s)
  case Nil
  then show ?thesis using two_args_progress [OF assms] by simp
next
  case (Cons c s')
  then show ?thesis using assms by (simp add: count_Cons)
qed

lemma date_add_substitute_count:
  assumes "substitute (Callable replace_date_add) (scan True (two_args ''date_add'') prev s) = Inr u"
  shows "count_matches (two_args ''date_add'') s \<le> count_matches (two_args ''date_add'') u"
  using assms
proof (induction "length s" arbitrary: s prev u rule: less_induct)
  case less
  show ?case
  proof (cases s)
    case Nil
    then show ?thesis by (simp add: count_Nil)
  next
    case (Cons c s')
    show ?thesis
    proof (cases "two_args_match ''date_add'' (c # s')")
      case None
      then have sc: "scan True (two_args ''date_add'') prev s =
          Text c # scan True (two_args ''date_add'') (Some c) s'"
        using Cons by (simp add: scan_two_args_Cons)
      then obtain u' where u': "substitute (Callable replace_date_add)
          (scan True (two_args ''date_add'') (Some c) s') = Inr u'" "u = c # u'"
        using less.prems by (auto split: sum.splits)
      have "count_matches (two_args ''date_add'') s' \<le> count_matches (two_args ''date_add'') u'"
        using less.hyps [of s' "Some c" u'] u'(1) Cons by simp
      moreover have "count_matches (two_args ''date_add'') u' \<le> count_matches (two_args ''date_add'') u"
        using count_suffix [OF date_add_plain, of u' u] u'(2) by (simp add: suffix_Cons)
      moreover have "count_matches (two_args ''date_add'') s = count_matches (two_args ''date_add'') s'"
        using None Cons by (simp add: count_Cons)
      ultimately show ?thesis by simp
    next
      case (Some res)
      obtain g pv r where res: "res = (g, pv, r)" by (cases res)
      have m: "two_args_match ''date_add'' s = Some (g, pv, r)" using Some res Cons by simp
      obtain g1 g2 where g: "g = [g1, g2]" and g2: "CHR '')'' \<notin> set g2"
        using two_args_match_groups [OF m] by blast
      have sc: "scan True (two_args ''date_add'') prev s =
          Match g # scan True (two_args ''date_add'') pv r"
        using m Cons by (simp add: scan_two_args_Cons)
      then obtain R u' where R: "replace_date_add [g1, g2] = Inr R"
        and u': "substitute (Callable replace_date_add) (scan True (two_args ''date_add'') pv r) = Inr u'"
        and u: "u = R @ u'"
        using less.prems g by (auto split: sum.splits)
      have lt: "length r < length s" by (rule two_args_progress [OF m])
      have ih: "count_matches (two_args ''date_add'') r \<le> count_matches (two_args ''date_add'') u'"
        by (rule less.hyps [OF lt u'])
      obtain g' pv' r' where m': "two_args_match ''date_add'' (R @ u') = Some (g', pv', r')"
        and suf: "suffix u' r'"
        using date_add_output [OF R g2, of u'] by blast
      have "count_matches (two_args ''date_add'') u' \<le> count_matches (two_args ''date_add'') r'"
        by (rule count_suffix [OF date_add_plain suf])
      then show ?thesis
        using ih count_match [OF m] count_match [OF m'] u by simp
    qed
  qed
qed

lemma date_add_not_counted:
  assumes "apply_mapping \<lparr>name = ''date_add'', pattern = two_args ''date_add'',
             replacement = Callable replace_date_add\<rparr> (sql, ws, st) = (sql', ws', st')"
  shows "functions_converted st' = functions_converted st \<and>
         total_conversions st' = total_conversions st"
proof (cases "re_sub (two_args ''date_add'') (Callable replace_date_add) sql True")
  case (Inl e)
  then show ?thesis using assms by (auto simp add: apply_mapping_def Let_def)
next
  case (Inr u)
  then have "count_matches (two_args ''date_add'') sql \<le> count_matches (two_args ''date_add'') u"
    using date_add_substitute_count [of None sql u] by (simp add: re_sub_def)
  then have "\<not> 0 < int (length (findall (two_args ''date_add'') sql True)) -
      int (length (findall (two_args ''date_add'') u True))"
    by (simp add: count_matches_def)
  then show ?thesis using assms Inr by (auto simp add: apply_mapping_def Let_def)
qed

lemma date_add_mapping_unique:
  assumes "mp \<in> set function_mappings" and "name mp = ''date_add''"
  shows "mp = \<lparr>name = ''date_add'', pattern = two_args ''date_add'',
               replacement = Callable replace_date_add\<rparr>"
  using assms by (auto simp add: function_mappings_def)

lemma key_not_added:
  assumes "apply_mappings mps (sql, ws, st) = (sql', ws', st')"
    and "k \<notin> fst ` set (functions_converted st)"
    and "\<And>mp sql ws st sql' ws' st'. mp \<in> set mps \<Longrightarrow> name mp = k \<Longrightarrow>
           apply_mapping mp (sql, ws, st) = (sql', ws', st') \<Longrightarrow>
           functions_converted st' = functions_converted st"
  shows "k \<notin> fst ` set (functions_converted st')"
  using assms
proof (induction mps arbitrary: sql ws st)
  case Nil
  then show ?case by (simp add: apply_mappings_def)
next
  case (Cons mp mps)
  obtain sql1 ws1 st1 where step: "apply_mapping mp (sql, ws, st) = (sql1, ws1, st1)"
    by (cases "apply_mapping mp (sql, ws, st)")
  have rest: "apply_mappings mps (sql1, ws1, st1) = (sql', ws', st')"
    using Cons.prems(1) step by (simp add: apply_mappings_Cons)
  have k1: "k \<notin> fst ` set (functions_converted st1)"
  proof (cases "name mp = k")
    case True
    have "functions_converted st1 = functions_converted st"
      by (rule Cons.prems(3) [OF _ True step]) simp
    then show ?thesis using Cons.prems(2) by simp
  next
    case False
    from apply_mapping_cases [OF step]
    consider "functions_converted st1 = functions_converted st"
      | n where "functions_converted st1 = AList.update (name mp) n (functions_converted st)"
      by auto
    then show ?thesis
    proof cases
      case 1
      then show ?thesis using Cons.prems(2) by simp
    next
      case 2
      have "fst ` set (functions_converted st1) = insert (name mp) (fst ` set (functions_converted st))"
        by (simp add: 2 dom_update)
      then show ?thesis using Cons.prems(2) False by auto
    qed
  qed
  show ?case
  proof (rule Cons.IH [OF rest k1])
    fix mp' sql ws st sql' ws' st'
    assume "mp' \<in> set mps" and "name mp' = k"
      and "apply_mapping mp' (sql, ws, st) = (sql', ws', st')"
    then show "functions_converted st' = functions_converted st"
      using Cons.prems(3) [of mp' sql ws st sql' ws' st'] by simp
  qed
qed


lemma date_add_5_rewritten:
  "re_sub (two_args ''date_add'') (Callable replace_date_add) ''date_add(d, 5)'' True =
     Inr ''date_add('day', 5, CAST(d AS TIMESTAMP))''"
  by code_simp

lemma date_add_5_step:
  "apply_mapping \<lparr>name = ''date_add'', pattern = two_args ''date_add'',
      replacement = Callable replace_date_add\<rparr> (''date_add(d, 5)'', [], initial_stats) =
   (''date_add('day', 5, CAST(d AS TIMESTAMP))'', [], initial_stats)"
  by code_simp

lemma date_add_5_counts:
  "count_matches (two_args ''date_add'') ''date_add(d, 5)'' = 1"
  "count_matches (two_args ''date_add'') ''date_add('day', 5, CAST(d AS TIMESTAMP))'' = 1"
  by code_simp+


text \<open>
  C2. For every input, \<^verbatim>\<open>date_add\<close> is no key of \<open>functions_converted\<close>, and the step
  of the loop for this rule leaves \<open>functions_converted\<close> and \<open>total_conversions\<close> as
  they were: when the substitution returns, the text has at least as many matches of
  the pattern after it as before, so \<^verbatim>\<open>conversions_made\<close> is never positive. The
  example after it is a run in which the rewrite was applied and nothing was recorded.
\<close>

theorem date_add_never_recorded:
  "(replace_func s = Inr (t, ws, st) \<longrightarrow> ''date_add'' \<notin> fst ` set (functions_converted st)) \<and>
   (apply_mapping \<lparr>name = ''date_add'', pattern = two_args ''date_add'',
                   replacement = Callable replace_date_add\<rparr> (sql, ws0, st0) = (sql', ws', st') \<longrightarrow>
      functions_converted st' = functions_converted st0 \<and>
      total_conversions st' = total_conversions st0) \<and>
   (re_sub (two_args ''date_add'') (Callable replace_date_add) sql True = Inr u \<longrightarrow>
      count_matches (two_args ''date_add'') sql \<le> count_matches (two_args ''date_add'') u)"
proof (intro conjI impI)
  assume r: "replace_func s = Inr (t, ws, st)"
  obtain u0 ws1 where e: "apply_mappings function_mappings (s, [], initial_stats) = (u0, ws1, st)"
    using replace_func_engine [OF r] by blast
  show "''date_add'' \<notin> fst ` set (functions_converted st)"
  proof (rule key_not_added [OF e])
    show "''date_add'' \<notin> fst ` set (functions_converted initial_stats)"
      by (simp add: initial_stats_def)
  next
    fix mp sql ws st sql' ws' st'
    assume mp: "mp \<in> set function_mappings" and nm: "name mp = ''date_add''"
      and step: "apply_mapping mp (sql, ws, st) = (sql', ws', st')"
    show "functions_converted st' = functions_converted st"
      using date_add_not_counted [of sql ws st sql' ws' st'] step
        date_add_mapping_unique [OF mp nm] by simp
  qed
next
  assume "apply_mapping \<lparr>name = ''date_add'', pattern = two_args ''date_add'',
                   replacement = Callable replace_date_add\<rparr> (sql, ws0, st0) = (sql', ws', st')"
  then show "functions_converted st' = functions_converted st0"
    and "total_conversions st' = total_conversions st0"
    using date_add_not_counted by blast+
next
  assume "re_sub (two_args ''date_add'') (Callable replace_date_add) sql True = Inr u"
  then show "count_matches (two_args ''date_add'') sql \<le> count_matches (two_args ''date_add'') u"
    using date_add_substitute_count [of None sql u] by (simp add: re_sub_def)
qed

theorem date_add_never_recorded_witness:
  "replace_func ''date_add(d, 5)'' =
     Inr (''date_add('day', 5, CAST(d AS TIMESTAMP))'', [],
          \<lparr>total_conversions = 0, functions_converted = [], errors = 0\<rparr>) \<and>
   ''date_add'' \<notin> fst ` set (functions_converted
      \<lparr>total_conversions = 0, functions_converted = [], errors = 0\<rparr>) \<and>
   apply_mapping \<lparr>name = ''date_add'', pattern = two_args ''date_add'',
      replacement = Callable replace_date_add\<rparr> (''date_add(d, 5)'', [], initial_stats) =
     (''date_add('day', 5, CAST(d AS TIMESTAMP))'', [], initial_stats) \<and>
   re_sub (two_args ''date_add'') (Callable replace_date_add) ''date_add(d, 5)'' True =
     Inr ''date_add('day', 5, CAST(d AS TIMESTAMP))'' \<and>
   count_matches (two_args ''date_add'') ''date_add(d, 5)'' \<le>
     count_matches (two_args ''date_add'') ''date_add('day', 5, CAST(d AS TIMESTAMP))''"
  using date_add_never_recorded [where s = "''date_add(d, 5)''"
      and t = "''date_add('day', 5, CAST(d AS TIMESTAMP))''" and ws = "[]"
      and st = "\<lparr>total_conversions = 0, functions_converted = [], errors = 0\<rparr>"
      and sql = "''date_add(d, 5)''" and ws0 = "[]" and st0 = initial_stats
      and sql' = "''date_add('day', 5, CAST(d AS TIMESTAMP))''" and ws' = "[]" and st' = initial_stats
      and u = "''date_add('day', 5, CAST(d AS TIMESTAMP))''"]
    run_date_add_5 date_add_5_rewritten date_add_5_step
  by (simp add: date_add_5_counts)

section \<open>The rule for date_sub\<close>

lemma starts_with_append: "starts_with ic nm s \<Longrightarrow> starts_with ic nm (s @ rest)"
proof (induction nm arbitrary: s)
  case Nil
  show ?case by simp
next
  case (Cons n nm)
  then show ?case by (cases s) auto
qed

lemma date_sub_name: "starts_with True ''DATE_SUB'' ''date_sub''"
  by code_simp

lemma takeWhile_first:
  "c \<notin> set xs \<Longrightarrow> takeWhile (\<lambda>y. y \<noteq> c) (xs @ c # ys) = xs"
  by (induction xs) auto

lemma date_sub_lone_match:
  assumes d: "d \<noteq> []" "CHR '','' \<notin> set d"
    and v: "v \<noteq> []" "\<not> is_space (hd v)" "CHR '')'' \<notin> set v"
  shows "two_args_match ''DATE_SUB'' (''date_sub'' @ CHR ''('' # d @ CHR '','' # CHR '' '' # v @ '')'') =
           Some ([d, v], Some CHR '')'', [])"
proof -
  let ?r1 = "CHR '' '' # v @ '')''"
  let ?r0 = "d @ CHR '','' # ?r1"
  have sw: "starts_with True ''DATE_SUB'' (''date_sub'' @ CHR ''('' # ?r0)"
    by (rule starts_with_append [OF date_sub_name])
  have dr: "drop (length ''DATE_SUB'') (''date_sub'' @ CHR ''('' # ?r0) = CHR ''('' # ?r0" by simp
  have d0: "dropWhile is_space (CHR ''('' # ?r0) = CHR ''('' # ?r0"
    by (simp add: is_space_def space_chars_def)
  have d1: "dropWhile (\<lambda>y. y \<noteq> CHR '','') ?r0 = CHR '','' # ?r1"
    using d(2) by (rule dropWhile_first)
  have t1: "takeWhile (\<lambda>y. y \<noteq> CHR '','') ?r0 = d"
    using d(2) by (rule takeWhile_first)
  have d2: "dropWhile (\<lambda>y. y \<noteq> CHR '')'') ?r1 = '')''"
    using v(3) dropWhile_first [of "CHR '')''" "CHR '' '' # v" "[]"] by simp
  have t2: "takeWhile (\<lambda>y. y \<noteq> CHR '')'') ?r1 = CHR '' '' # v"
    using v(3) takeWhile_first [of "CHR '')''" "CHR '' '' # v" "[]"] by simp
  have sp: "is_space CHR '' ''" by (simp add: is_space_def space_chars_def)
  obtain x v' where vv: "v = x # v'" using v(1) by (cases v) auto
  have sa: "second_arg (CHR '' '' # v) = v"
    using second_arg_simps(3) [OF sp v(1)] second_arg_simps(1) [of x v'] v(2) vv by simp
  have ne: "(d = []) = False" "(CHR '' '' # v = []) = False" using d(1) by simp_all
  show ?thesis
    unfolding two_args_match_def
    by (simp only: sw if_True dr d0 list.case refl d1 t1 d2 t2 sa ne if_False)
qed

lemma date_sub_lone_invocation:
  assumes "d \<noteq> []" "CHR '','' \<notin> set d" "v \<noteq> []" "\<not> is_space (hd v)" "CHR '')'' \<notin> set v"
  shows "re_sub (two_args ''DATE_SUB'') (Callable replace_date_sub)
           (''date_sub('' @ d @ '', '' @ v @ '')'') True = replace_date_sub [d, v]"
proof -
  have "scan True (two_args ''DATE_SUB'') None
          (CHR ''d'' # ''ate_sub'' @ CHR ''('' # d @ CHR '','' # CHR '' '' # v @ '')'') =
        [Match [d, v]]"
    using date_sub_lone_match [OF assms]
    by (simp only: scan_two_args_Cons) (simp add: scan_Nil [OF two_args_needs])
  then have "scan True (two_args ''DATE_SUB'') None (''date_sub('' @ d @ '', '' @ v @ '')'') =
        [Match [d, v]]"
    by simp
  then show ?thesis
    by (cases "replace_date_sub [d, v]") (simp_all add: re_sub_def)
qed

lemma split_examples:
  "split ''5'' = [''5'']"
  "split ''interval 2 days'' = [''interval'', ''2'', ''days'']"
  by code_simp+

text \<open>
  C4. On a text that is one call \<^verbatim>\<open>date_sub(d, v)\<close> the rule returns what
  \<open>replace_date_sub\<close> makes of \<open>d\<close> and \<open>v\<close>. For \<open>v\<close> of one token that is
  \<^verbatim>\<open>date_add('day', -v, d)\<close>; for \<open>v\<close> of three tokens it is
  \<^verbatim>\<open>date_add('unit', -amount, d)\<close>, the amount being the middle token and the unit
  the last token without one final \<^verbatim>\<open>s\<close>. The conversion of
  \<^verbatim>\<open>date_sub(col, interval 2 days)\<close> is \<^verbatim>\<open>date_add('day', -2, col)\<close>.
\<close>

theorem date_sub_negates:
  "(d \<noteq> [] \<and> CHR '','' \<notin> set d \<and> w \<noteq> [] \<and> \<not> is_space (hd w) \<and> CHR '')'' \<notin> set w \<longrightarrow>
      re_sub (two_args ''DATE_SUB'') (Callable replace_date_sub)
        (''date_sub('' @ d @ '', '' @ w @ '')'') True = replace_date_sub [d, w]) \<and>
   (split (group m 2) = [v] \<longrightarrow>
      replace_date_sub m =
        Inr (''date_add('day', -'' @ group m 2 @ '', '' @ group m 1 @ '')'')) \<and>
   (split (group m 2) = [a, b, c] \<longrightarrow>
      replace_date_sub m =
        Inr (''date_add('' @ [CHR 0x27] @ (if endswith c CHR ''s'' then butlast c else c) @ [CHR 0x27] @
             '', -'' @ b @ '', '' @ group m 1 @ '')'')) \<and>
   replace_func ''date_sub(col, interval 2 days)'' =
     Inr (''date_add('day', -2, col)'', [],
          \<lparr>total_conversions = 1, functions_converted = [(''date_sub'', 1)], errors = 0\<rparr>)"
  using date_sub_lone_invocation [of d w]
  by (simp add: run_date_sub replace_date_sub_def list_index_def Let_def)

theorem date_sub_negates_witness:
  "split (group [''d'', ''5''] 2) = [''5''] \<and>
   replace_date_sub [''d'', ''5''] = Inr ''date_add('day', -5, d)'' \<and>
   split (group [''col'', ''interval 2 days''] 2) = [''interval'', ''2'', ''days''] \<and>
   replace_date_sub [''col'', ''interval 2 days''] = Inr ''date_add('day', -2, col)'' \<and>
   re_sub (two_args ''DATE_SUB'') (Callable replace_date_sub)
     ''date_sub(col, interval 2 days)'' True = Inr ''date_add('day', -2, col)''"
  using date_sub_negates [of "''d''" "''5''" "[''d'', ''5'']" "''5''"]
    date_sub_negates [of "''col''" "''interval 2 days''" "[''col'', ''interval 2 days'']" _
      "''interval''" "''2''" "''days''"]
  by (simp add: group_def split_examples endswith_def is_space_def space_chars_def)

section \<open>Two tokens in the second argument of date_add\<close>

text \<open>
  \<open>replace_date_add\<close> raises nothing but the IndexError of a list read out of range,
  and it raises it at \<^verbatim>\<open>value[2]\<close> when the second group splits into two tokens.
\<close>

lemma replace_date_add_error:
  "replace_date_add m = Inl e \<Longrightarrow> e = IndexError ''list index out of range''"
  by (auto simp add: replace_date_add_def list_index_def Let_def split: if_splits)

lemma two_tokens_raise:
  "length (split (group m 2)) = 2 \<Longrightarrow>
     replace_date_add m = Inl (IndexError ''list index out of range'')"
  by (simp add: replace_date_add_def list_index_def Let_def)

text \<open>A substitution raises as soon as the replacement function raises on one match.\<close>

lemma substitute_raises:
  assumes "m \<in> set (matches_of ps)" and "f m = Inl e" and "\<forall>g e'. f g = Inl e' \<longrightarrow> e' = e"
  shows "substitute (Callable f) ps = Inl e"
  using assms(1)
proof (induction ps)
  case Nil
  then show ?case by simp
next
  case (Cons a ps)
  show ?case
  proof (cases a)
    case (Text c)
    then show ?thesis using Cons by simp
  next
    case (Match g)
    show ?thesis
    proof (cases "f g")
      case (Inl e')
      then have "e' = e" using assms(3) by blast
      then show ?thesis using Match Inl by simp
    next
      case (Inr r)
      then have "m \<noteq> g" using assms(2) by auto
      then have "m \<in> set (matches_of ps)" using Cons.prems Match by simp
      then show ?thesis using Cons.IH Match Inr by simp
    qed
  qed
qed

lemma date_add_sub_raises:
  assumes "m \<in> set (findall (two_args ''date_add'') sql True)"
    and "length (split (group m 2)) = 2"
  shows "re_sub (two_args ''date_add'') (Callable replace_date_add) sql True =
           Inl (IndexError ''list index out of range'')"
  unfolding re_sub_def
proof (rule substitute_raises)
  show "m \<in> set (matches_of (scan True (two_args ''date_add'') None sql))"
    using assms(1) by (simp add: findall_def)
  show "replace_date_add m = Inl (IndexError ''list index out of range'')"
    by (rule two_tokens_raise [OF assms(2)])
  show "\<forall>g e'. replace_date_add g = Inl e' \<longrightarrow> e' = IndexError ''list index out of range''"
    using replace_date_add_error by blast
qed

text \<open>A rule whose pattern matches nowhere leaves the text, the warnings and the counts.\<close>

lemma no_match_identity:
  assumes "\<exists>it \<in> set p. needs_char it"
  shows "matches_of (scan ic p prev s) = [] \<Longrightarrow> substitute repl (scan ic p prev s) = Inr s"
proof (induction s arbitrary: prev)
  case Nil
  then show ?case by (simp add: scan_Nil [OF assms])
next
  case (Cons c s)
  show ?case
  proof (cases "match_here ic p prev (c # s) [] []")
    case None
    then show ?thesis using Cons by (simp add: scan_Cons [OF assms])
  next
    case (Some res)
    then show ?thesis using Cons.prems by (cases res) (simp add: scan_Cons [OF assms])
  qed
qed

lemma apply_mapping_no_match:
  assumes "\<exists>it \<in> set (pattern mp). needs_char it" and "findall (pattern mp) sql True = []"
  shows "apply_mapping mp (sql, ws, st) = (sql, ws, st)"
proof -
  have "re_sub (pattern mp) (replacement mp) sql True = Inr sql"
    using assms(2) no_match_identity [OF assms(1)] by (simp add: re_sub_def findall_def)
  then show ?thesis using assms(2) by (simp add: apply_mapping_def Let_def)
qed

text \<open>Through the loop the warnings are only appended to and the error counter only grows.\<close>

lemma apply_mappings_grows:
  assumes "apply_mappings mps (sql, ws, st) = (sql', ws', st')"
  shows "prefix ws ws' \<and> errors st \<le> errors st'"
  using assms
proof (induction mps arbitrary: sql ws st)
  case Nil
  then show ?case by (simp add: apply_mappings_def)
next
  case (Cons mp mps)
  obtain sql1 ws1 st1 where step: "apply_mapping mp (sql, ws, st) = (sql1, ws1, st1)"
    by (cases "apply_mapping mp (sql, ws, st)")
  have rest: "apply_mappings mps (sql1, ws1, st1) = (sql', ws', st')"
    using Cons.prems step by (simp add: apply_mappings_Cons)
  have w: "prefix ws ws1"
    using apply_mapping_warnings [OF step] by auto
  have e: "errors st \<le> errors st1"
    using apply_mapping_cases [OF step] by auto
  have "prefix ws1 ws' \<and> errors st1 \<le> errors st'"
    by (rule Cons.IH [OF rest])
  then show ?case using w e by auto
qed

lemma date_add_step:
  assumes "m \<in> set (findall (two_args ''date_add'') sql True)"
    and "length (split (group m 2)) = 2"
  shows "apply_mapping \<lparr>name = ''date_add'', pattern = two_args ''date_add'',
                         replacement = Callable replace_date_add\<rparr> (sql, warnings, stats) =
           (sql,
            warnings @ [''Warning: Failed to apply date_add conversion: list index out of range''],
            stats\<lparr>errors := errors stats + 1\<rparr>)"
  using date_add_sub_raises [OF assms] by (simp add: apply_mapping_def Let_def)

lemma rules_from_date_add:
  assumes "findall (two_args ''add_months'') sql True = []"
    and "findall (two_args ''adddate'') sql True = []"
  shows "apply_mappings function_mappings (sql, ws, st) =
           apply_mappings (drop 2 function_mappings) (sql, ws, st)"
proof -
  have a: "apply_mapping (function_mappings ! 0) (sql, ws, st) = (sql, ws, st)"
    by (rule apply_mapping_no_match) (simp_all add: function_mappings_def two_args_needs assms)
  have b: "apply_mapping (function_mappings ! 1) (sql, ws, st) = (sql, ws, st)"
    by (rule apply_mapping_no_match) (simp_all add: function_mappings_def two_args_needs assms)
  have "function_mappings =
      function_mappings ! 0 # function_mappings ! 1 # drop 2 function_mappings"
    by (simp add: function_mappings_def)
  then have "apply_mappings function_mappings (sql, ws, st) =
      apply_mappings (function_mappings ! 0 # function_mappings ! 1 # drop 2 function_mappings)
        (sql, ws, st)"
    by simp
  then show ?thesis by (simp only: apply_mappings_Cons a b)
qed

lemma loop_after_date_add:
  assumes "m \<in> set (findall (two_args ''date_add'') sql True)"
    and "length (split (group m 2)) = 2"
    and "findall (two_args ''add_months'') sql True = []"
    and "findall (two_args ''adddate'') sql True = []"
  shows "apply_mappings function_mappings (sql, [], initial_stats) =
           apply_mappings (drop 3 function_mappings)
             (sql, [''Warning: Failed to apply date_add conversion: list index out of range''],
              initial_stats\<lparr>errors := 1\<rparr>)"
proof -
  have "drop 2 function_mappings =
      \<lparr>name = ''date_add'', pattern = two_args ''date_add'',
        replacement = Callable replace_date_add\<rparr> # drop 3 function_mappings"
    by (simp add: function_mappings_def)
  then have "apply_mappings (drop 2 function_mappings) (sql, [], initial_stats) =
      apply_mappings (drop 3 function_mappings)
        (apply_mapping \<lparr>name = ''date_add'', pattern = two_args ''date_add'',
            replacement = Callable replace_date_add\<rparr> (sql, [], initial_stats))"
    by (simp only: apply_mappings_Cons)
  then show ?thesis
    using rules_from_date_add [OF assms(3) assms(4)] date_add_step [OF assms(1) assms(2)]
    by (simp add: initial_stats_def)
qed

lemma run_int_3_months:
  "replace_func ''date_add(int, 3 months)'' =
     Inr (''date_add(INTEGER, 3 months)'',
          [''Warning: Failed to apply date_add conversion: list index out of range''],
          \<lparr>total_conversions = 0, functions_converted = [], errors = 1\<rparr>)"
  by code_simp

lemma found_int_3_months:
  "findall (two_args ''date_add'') ''date_add(int, 3 months)'' True = [[''int'', ''3 months'']]"
  by code_simp

lemma found_3_months:
  "findall (two_args ''date_add'') ''date_add(d, 3 months)'' True = [[''d'', ''3 months'']]"
  by code_simp

lemma no_add_months: "findall (two_args ''add_months'') ''date_add(d, 3 months)'' True = []"
  by code_simp

lemma no_adddate: "findall (two_args ''adddate'') ''date_add(d, 3 months)'' True = []"
  by code_simp

lemma split_3_months: "split ''3 months'' = [''3'', ''months'']"
  by code_simp

text \<open>
  C10, as stated, fails: the rules after \<^verbatim>\<open>date_add\<close> and the post-processing pass still
  run on the call that the failed rule left in the text. The second argument of
  \<^verbatim>\<open>date_add(int, 3 months)\<close> has two tokens, and the rewrite raises and is absorbed
  as one warning and one error; yet the text returned is
  \<^verbatim>\<open>date_add(INTEGER, 3 months)\<close>, in which the original call no longer occurs.
\<close>

theorem date_add_call_altered_counterexample:
  "findall (two_args ''date_add'') ''date_add(int, 3 months)'' True = [[''int'', ''3 months'']] \<and>
   length (split (group [''int'', ''3 months''] 2)) = 2 \<and>
   replace_func ''date_add(int, 3 months)'' =
     Inr (''date_add(INTEGER, 3 months)'',
          [''Warning: Failed to apply date_add conversion: list index out of range''],
          \<lparr>total_conversions = 0, functions_converted = [], errors = 1\<rparr>) \<and>
   \<not> contains ''date_add(INTEGER, 3 months)'' ''date_add(int, 3 months)''"
  by (simp add: found_int_3_months run_int_3_months group_def split_3_months)

text \<open>
  C10, amended. When the text that reaches the rule \<^verbatim>\<open>date_add\<close> has a match of the
  rule's pattern whose second group splits into two tokens, \<open>replace_date_add\<close> raises
  IndexError on that match at \<^verbatim>\<open>value[2]\<close> and \<^verbatim>\<open>re.sub\<close> raises it; the step of the
  loop leaves the text as it was, appends the one warning that names \<^verbatim>\<open>date_add\<close> and
  adds one to the error counter, the conversion counts being untouched. When moreover
  the input has no call of \<^verbatim>\<open>add_months\<close> or \<^verbatim>\<open>adddate\<close>, that text is the input: the
  rules after \<^verbatim>\<open>date_add\<close> start from the input unchanged, and the conversion returns
  with this warning first and at least one error counted. (What the later rules and
  the post-processing pass make of the call is not constrained.)
\<close>

theorem date_add_two_tokens_absorbed:
  assumes "m \<in> set (findall (two_args ''date_add'') sql True)"
    and "length (split (group m 2)) = 2"
  shows "replace_date_add m = Inl (IndexError ''list index out of range'') \<and>
         re_sub (two_args ''date_add'') (Callable replace_date_add) sql True =
           Inl (IndexError ''list index out of range'') \<and>
         apply_mapping \<lparr>name = ''date_add'', pattern = two_args ''date_add'',
                         replacement = Callable replace_date_add\<rparr> (sql, warnings, stats) =
           (sql,
            warnings @ [''Warning: Failed to apply date_add conversion: list index out of range''],
            stats\<lparr>errors := errors stats + 1\<rparr>) \<and>
         (findall (two_args ''add_months'') sql True = [] \<and>
          findall (two_args ''adddate'') sql True = [] \<longrightarrow>
            apply_mappings function_mappings (sql, [], initial_stats) =
              apply_mappings (drop 3 function_mappings)
                (sql, [''Warning: Failed to apply date_add conversion: list index out of range''],
                 initial_stats\<lparr>errors := 1\<rparr>) \<and>
            (\<exists>t ws st. replace_func sql =
               Inr (t, ''Warning: Failed to apply date_add conversion: list index out of range'' # ws, st) \<and>
               1 \<le> errors st))"
proof -
  let ?w = "''Warning: Failed to apply date_add conversion: list index out of range''"
  have conv: "\<exists>t ws st. replace_func sql = Inr (t, ?w # ws, st) \<and> 1 \<le> errors st"
    if none: "findall (two_args ''add_months'') sql True = []"
             "findall (two_args ''adddate'') sql True = []"
  proof -
    obtain u ws0 st where e: "apply_mappings (drop 3 function_mappings)
        (sql, [?w], initial_stats\<lparr>errors := 1\<rparr>) = (u, ws0, st)"
      by (cases "apply_mappings (drop 3 function_mappings) (sql, [?w], initial_stats\<lparr>errors := 1\<rparr>)")
    have g: "prefix [?w] ws0 \<and> errors (initial_stats\<lparr>errors := 1\<rparr>) \<le> errors st"
      by (rule apply_mappings_grows [OF e])
    then obtain ws1 where ws1: "ws0 = ?w # ws1"
      by (auto simp add: prefix_def)
    have err: "1 \<le> errors st" using g by simp
    have loop: "apply_mappings function_mappings (sql, [], initial_stats) = (u, ws0, st)"
      using loop_after_date_add [OF assms none] e by simp
    obtain t where t: "apply_additional_transformations u = Inr t"
      using transformations_return by blast
    have "replace_func sql = Inr (t, ?w # (ws1 @ validate_converted_sql t), st)"
      by (simp add: replace_func_def replace_func_with_def loop t ws1)
    then show ?thesis using err by blast
  qed
  show ?thesis
    using two_tokens_raise [OF assms(2)] date_add_sub_raises [OF assms]
      date_add_step [OF assms] loop_after_date_add [OF assms] conv
    by blast
qed

theorem date_add_two_tokens_absorbed_witness:
  "[''d'', ''3 months''] \<in> set (findall (two_args ''date_add'') ''date_add(d, 3 months)'' True) \<and>
   length (split (group [''d'', ''3 months''] 2)) = 2 \<and>
   findall (two_args ''add_months'') ''date_add(d, 3 months)'' True = [] \<and>
   findall (two_args ''adddate'') ''date_add(d, 3 months)'' True = [] \<and>
   replace_date_add [''d'', ''3 months''] = Inl (IndexError ''list index out of range'') \<and>
   apply_mapping \<lparr>name = ''date_add'', pattern = two_args ''date_add'',
                   replacement = Callable replace_date_add\<rparr>
       (''date_add(d, 3 months)'', [], initial_stats) =
     (''date_add(d, 3 months)'',
      [''Warning: Failed to apply date_add conversion: list index out of range''],
      \<lparr>total_conversions = 0, functions_converted = [], errors = 1\<rparr>) \<and>
   replace_func ''date_add(d, 3 months)'' =
     Inr (''date_add(d, 3 months)'',
          [''Warning: Failed to apply date_add conversion: list index out of range''],
          \<lparr>total_conversions = 0, functions_converted = [], errors = 1\<rparr>)"
  using date_add_two_tokens_absorbed [of "[''d'', ''3 months'']" "''date_add(d, 3 months)''"
      "[]" initial_stats]
  by (simp add: found_3_months no_add_months no_adddate group_def split_3_months run_3_months
      initial_stats_def)

section \<open>Rules that never count their conversions\<close>

lemma run_trunc:
  "replace_func ''trunc(d, u)'' =
     Inr (''date_trunc(u, d)'', [],
          \<lparr>total_conversions = 0, functions_converted = [], errors = 0\<rparr>)"
  by code_simp

lemma trunc_still_matches:
  "count_matches (two_args ''trunc'') ''date_trunc(u, d)'' = 1"
  by code_simp

text \<open>
  C1. The claim does not hold of the code for the rules \<^verbatim>\<open>date_add\<close> and \<^verbatim>\<open>trunc\<close>,
  whose replacements match their own patterns: on one well-formed invocation the text
  is rewritten, one match of the rule's pattern remains and no conversion is recorded.
  (For \<^verbatim>\<open>strleft\<close>, see C3.)
\<close>

theorem single_invocation_not_counted:
  "replace_func ''date_add(d, 5)'' =
     Inr (''date_add('day', 5, CAST(d AS TIMESTAMP))'', [],
          \<lparr>total_conversions = 0, functions_converted = [], errors = 0\<rparr>) \<and>
   count_matches (two_args ''date_add'') ''date_add('day', 5, CAST(d AS TIMESTAMP))'' = 1 \<and>
   replace_func ''trunc(d, u)'' =
     Inr (''date_trunc(u, d)'', [],
          \<lparr>total_conversions = 0, functions_converted = [], errors = 0\<rparr>) \<and>
   count_matches (two_args ''trunc'') ''date_trunc(u, d)'' = 1"
  by (simp add: run_date_add_5 run_trunc date_add_5_counts trunc_still_matches)

end
